theory Spec2Isabelle
  imports Complex_Main
begin

section \<open>The dice roller of \<open>src/app/api/mcp/route.ts\<close>\<close>

text \<open>
  Modelling conventions.
  \<^item> A JavaScript string is a list of code units; the model covers the code units below 256
    (\<open>char\<close>), read as Latin-1. Code units from 256 on are outside the model.
  \<^item> A JavaScript number is an IEEE double. Those of this program hold integers: a count,
    a number of sides or a selector size is a \<open>nat\<close>, a modifier, a die value, a subtotal
    and a total an \<open>int\<close>. \<open>parseInt\<close> and every addition of the program round to the
    nearest double, ties to even (\<open>double_of_int\<close>). A number of 309 digits or more, which
    is \<open>Infinity\<close> in JavaScript, is outside the model, and so is the memory of the
    engine; the limit \<open>2 ^ 32 - 1\<close> on the length of an array is in it (\<open>array_from\<close>).
  \<^item> \<open>Math.random()\<close> reads a tape of future results, threaded through every function that
    draws dice.
  \<^item> A \<open>throw\<close> is the \<open>Inl\<close> branch of a sum.
\<close>

subsection \<open>Data model\<close>

record DieRoll =
  dvalue :: int

datatype keep_kind = kh | kl
datatype drop_kind = dh | dl

record DiceTerm =
  count :: nat
  sides :: nat
  keep :: "(keep_kind \<times> nat) option"
  drop_t :: "(drop_kind \<times> nat) option"

datatype expr_term = Dice DiceTerm | Modifier int

record ParsedExpression =
  terms :: "expr_term list"
  advantage :: bool
  disadvantage :: bool

datatype error =
    InvalidDicePart string
  | NegativeDicePools string
  | BothAdvDis
  | TypeError
  | RangeError

subsection \<open>Numbers\<close>

text \<open>
  The double nearest to an integer \<open>n \<ge> 0\<close>: \<open>n\<close> itself below \<open>2 ^ 53\<close>; above, \<open>n\<close> loses
  its \<open>exponent n\<close> low bits, rounded to the nearest multiple of \<open>2 ^ exponent n\<close>, to the
  one with an even quotient when two are as near.
\<close>

function exponent :: "int \<Rightarrow> nat" where
  "exponent n = (if n < 2 ^ 53 then 0 else Suc (exponent (n div 2)))"
  by pat_completeness auto
termination
  by (relation "measure nat") auto

declare exponent.simps [simp del]

definition nearest_double :: "int \<Rightarrow> int" where
  "nearest_double n =
     (let e = exponent n; q = n div 2 ^ e; r = n mod 2 ^ e
      in if 2 * r < 2 ^ e \<or> (2 * r = 2 ^ e \<and> even q) then q * 2 ^ e else (q + 1) * 2 ^ e)"

definition double_of_int :: "int \<Rightarrow> int" where
  "double_of_int x = (if x < 0 then - nearest_double (- x) else nearest_double x)"

text \<open>\<open>a + b\<close> on doubles that hold integers: the exact sum, rounded.\<close>

definition double_add :: "int \<Rightarrow> int \<Rightarrow> int" where
  "double_add a b = double_of_int (a + b)"

subsection \<open>Strings: \<open>trim\<close>, \<open>toLowerCase\<close>, \<open>split\<close>\<close>

definition is_ws :: "char \<Rightarrow> bool" where
  "is_ws c = (of_char c \<in> {9, 10, 11, 12, 13, 32, 160 :: nat})"

definition trim :: "string \<Rightarrow> string" where
  "trim s = rev (dropWhile is_ws (rev (dropWhile is_ws s)))"

definition lower_char :: "char \<Rightarrow> char" where
  "lower_char c =
     (let k = (of_char c :: nat) in
      if (65 \<le> k \<and> k \<le> 90) \<or> (192 \<le> k \<and> k \<le> 222 \<and> k \<noteq> 215)
      then char_of (k + 32) else c)"

definition toLowerCase :: "string \<Rightarrow> string" where
  "toLowerCase s = map lower_char s"

text \<open>\<open>s.split(/\s+/)\<close>: \<open>cur\<close> is the piece being read.\<close>

function split_ws :: "string \<Rightarrow> string \<Rightarrow> string list" where
  "split_ws cur [] = [cur]"
| "split_ws cur (c # cs) =
     (if is_ws c then cur # split_ws [] (dropWhile is_ws cs)
      else split_ws (cur @ [c]) cs)"
  by pat_completeness auto
termination
  by (relation "measure (\<lambda>(cur, s). length s)")
     (auto simp: length_dropWhile_le less_Suc_eq_le)

definition is_sign :: "char \<Rightarrow> bool" where
  "is_sign c = (c = CHR ''+'' \<or> c = CHR ''-'')"

text \<open>\<open>s.split(/(?=[+-])/g)\<close>: a piece ends before every sign but the one at position 0.\<close>

fun split_signs :: "string \<Rightarrow> string \<Rightarrow> string list" where
  "split_signs cur [] = [cur]"
| "split_signs cur (c # cs) =
     (if is_sign c \<and> cur \<noteq> [] then cur # split_signs [c] cs
      else split_signs (cur @ [c]) cs)"

text \<open>\<open>s.replace(/^\+?/, '+')\<close>: a leading \<open>+\<close> is replaced by itself, anything else gets
  a \<open>+\<close> in front, a leading \<open>-\<close> included.\<close>

fun replace_plus :: "string \<Rightarrow> string" where
  "replace_plus [] = ''+''"
| "replace_plus (c # cs) = (if c = CHR ''+'' then c # cs else CHR ''+'' # c # cs)"

definition is_digit :: "char \<Rightarrow> bool" where
  "is_digit c = (48 \<le> (of_char c :: nat) \<and> (of_char c :: nat) \<le> 57)"

text \<open>\<open>parseInt(s, 10)\<close> on a string of decimal digits, the only strings it is given: the
  double nearest to the number the digits write.\<close>

definition decimal :: "string \<Rightarrow> int" where
  "decimal s = foldl (\<lambda>acc c. 10 * acc + (of_char c - 48)) 0 s"

definition parseInt :: "string \<Rightarrow> nat" where
  "parseInt s = nat (double_of_int (decimal s))"

subsection \<open>The term pattern\<close>

text \<open>
  \<open>termRe\<close> is
  \<^verbatim>\<open>^(?<sign>[+-])(?:(?<count>\d*)d(?<sides>\d+)(?:(?<kd>(kh|kl|dh|dl))(?<n>\d+))?|(?<mod>\d+))$\<close>.
  A match is either of the dice alternative (groups \<open>sign\<close>, \<open>count\<close>, \<open>sides\<close> and, together
  or not at all, \<open>kd\<close> and \<open>n\<close>) or of the modifier alternative (groups \<open>sign\<close>, \<open>mod\<close>).
\<close>

datatype term_match =
    DiceMatch char string string "(string \<times> string) option"
  | ModMatch char string

definition is_kd :: "string \<Rightarrow> bool" where
  "is_kd s = (s = ''kh'' \<or> s = ''kl'' \<or> s = ''dh'' \<or> s = ''dl'')"

definition match_selector :: "string \<Rightarrow> (string \<times> string) option option" where
  "match_selector r =
     (if r = [] then Some None
      else if is_kd (take 2 r) \<and> List.drop 2 r \<noteq> [] \<and> list_all is_digit (List.drop 2 r)
      then Some (Some (take 2 r, List.drop 2 r))
      else None)"

definition match_body :: "char \<Rightarrow> string \<Rightarrow> term_match option" where
  "match_body sg body =
     (let cnt = takeWhile is_digit body; r1 = dropWhile is_digit body in
      case r1 of
        [] \<Rightarrow> if cnt \<noteq> [] then Some (ModMatch sg cnt) else None
      | c # r2 \<Rightarrow>
          if c = CHR ''d'' then
            (let sd = takeWhile is_digit r2; r3 = dropWhile is_digit r2 in
             if sd = [] then None
             else (case match_selector r3 of
                     None \<Rightarrow> None
                   | Some sel \<Rightarrow> Some (DiceMatch sg cnt sd sel)))
          else None)"

fun match_termRe :: "string \<Rightarrow> term_match option" where
  "match_termRe [] = None"
| "match_termRe (sg # body) = (if is_sign sg then match_body sg body else None)"

subsection \<open>\<open>parseNotation\<close>\<close>

definition is_adv :: "string \<Rightarrow> bool" where
  "is_adv t = (t = ''adv'' \<or> t = ''advantage'')"

definition is_dis :: "string \<Rightarrow> bool" where
  "is_dis t = (t = ''dis'' \<or> t = ''disadvantage'')"

text \<open>The \<open>while (tokens.length)\<close> loop: the tokens left, and the two flags.\<close>

function strip_flags :: "string list \<Rightarrow> bool \<Rightarrow> bool \<Rightarrow> string list \<times> bool \<times> bool" where
  "strip_flags tokens adv dis =
     (if tokens = [] then (tokens, adv, dis)
      else if is_adv (last tokens) then strip_flags (butlast tokens) True dis
      else if is_dis (last tokens) then strip_flags (butlast tokens) adv True
      else (tokens, adv, dis))"
  by pat_completeness auto
termination
  by (relation "measure (\<lambda>(tokens, adv, dis). length tokens)") auto

declare strip_flags.simps [simp del]

definition kd_of :: "string \<Rightarrow> nat \<Rightarrow> DiceTerm \<Rightarrow> DiceTerm" where
  "kd_of kd n t =
     (if kd = ''kh'' then t\<lparr>keep := Some (kh, n)\<rparr>
      else if kd = ''kl'' then t\<lparr>keep := Some (kl, n)\<rparr>
      else if kd = ''dh'' then t\<lparr>drop_t := Some (dh, n)\<rparr>
      else t\<lparr>drop_t := Some (dl, n)\<rparr>)"

text \<open>The body of the \<open>for (const part of parts)\<close> loop.\<close>

definition parse_part :: "string \<Rightarrow> error + expr_term" where
  "parse_part part =
     (case match_termRe part of
        None \<Rightarrow> Inl (InvalidDicePart part)
      | Some (ModMatch sg md) \<Rightarrow>
          Inr (Modifier ((if sg = CHR ''-'' then - 1 else 1) * int (parseInt md)))
      | Some (DiceMatch sg cnt sd sel) \<Rightarrow>
          (let cnt1 = (if cnt \<noteq> [] then parseInt cnt else 1);
               sides1 = parseInt sd
           in if sg = CHR ''-'' then Inl (NegativeDicePools part)
              else
                (let t = \<lparr>count = (if cnt1 \<noteq> 0 then cnt1 else 1), sides = sides1,
                          keep = None, drop_t = None\<rparr>
                 in case sel of
                      None \<Rightarrow> Inr (Dice t)
                    | Some (kd, ns) \<Rightarrow>
                        (let n = parseInt ns
                         in if n \<noteq> 0 then Inr (Dice (kd_of kd n t)) else Inr (Dice t)))))"

fun parse_parts :: "string list \<Rightarrow> expr_term list \<Rightarrow> error + expr_term list" where
  "parse_parts [] acc = Inr acc"
| "parse_parts (part # rest) acc =
     (case parse_part part of
        Inl e \<Rightarrow> Inl e
      | Inr t \<Rightarrow> parse_parts rest (acc @ [t]))"

definition tokenize :: "string \<Rightarrow> string list" where
  "tokenize notation = split_ws [] (toLowerCase (trim notation))"

definition parts_of :: "string list \<Rightarrow> string list" where
  "parts_of tokens = filter (\<lambda>p. p \<noteq> []) (split_signs [] (replace_plus (concat tokens)))"

definition parseNotation :: "string \<Rightarrow> error + ParsedExpression" where
  "parseNotation notation =
     (case strip_flags (tokenize notation) False False of
        (tokens, adv, dis) \<Rightarrow>
          (case parse_parts (parts_of tokens) [] of
             Inl e \<Rightarrow> Inl e
           | Inr ts \<Rightarrow>
               if adv \<and> dis then Inl BothAdvDis
               else Inr \<lparr>terms = ts, advantage = adv, disadvantage = dis\<rparr>))"

subsection \<open>Drawing dice\<close>

text \<open>The tape of the results \<open>Math.random()\<close> will give, next one first.\<close>

type_synonym rng = "nat \<Rightarrow> real"

definition rollOnce :: "nat \<Rightarrow> rng \<Rightarrow> int \<times> rng" where
  "rollOnce sd g = (1 + \<lfloor>g 0 * real sd\<rfloor>, \<lambda>i. g (Suc i))"

text \<open>The calls \<open>() => ({ value: rollOnce(sides) })\<close> that fill an array of \<open>k\<close> rolls.\<close>

fun draw_rolls :: "nat \<Rightarrow> nat \<Rightarrow> rng \<Rightarrow> DieRoll list \<times> rng" where
  "draw_rolls 0 sd g = ([], g)"
| "draw_rolls (Suc k) sd g =
     (case rollOnce sd g of (v, g1) \<Rightarrow>
        (case draw_rolls k sd g1 of (rs, g2) \<Rightarrow> (\<lparr>dvalue = v\<rparr> # rs, g2)))"

text \<open>\<open>Array.from({ length }, fn)\<close> creates the array before it fills it, and throws a
  RangeError when the length is above \<open>2 ^ 32 - 1\<close>.\<close>

definition array_from :: "nat \<Rightarrow> nat \<Rightarrow> rng \<Rightarrow> error + (DieRoll list \<times> rng)" where
  "array_from len sd g = (if 2 ^ 32 \<le> int len then Inl RangeError else Inr (draw_rolls len sd g))"

subsection \<open>Array operations\<close>

text \<open>
  \<open>xs.sort(cmp)\<close> is stable, and with a comparator that is a total preorder its result is
  the one stable ordering: \<open>x\<close> goes before the first \<open>y\<close> it does not compare greater than.
\<close>

fun insort_cmp :: "('a \<Rightarrow> 'a \<Rightarrow> int) \<Rightarrow> 'a \<Rightarrow> 'a list \<Rightarrow> 'a list" where
  "insort_cmp cmp x [] = [x]"
| "insort_cmp cmp x (y # ys) =
     (if cmp x y \<le> 0 then x # y # ys else y # insort_cmp cmp x ys)"

definition sort_cmp :: "('a \<Rightarrow> 'a \<Rightarrow> int) \<Rightarrow> 'a list \<Rightarrow> 'a list" where
  "sort_cmp cmp xs = foldr (insort_cmp cmp) xs []"

text \<open>\<open>xs.slice(0, n)\<close>\<close>

definition slice_first :: "nat \<Rightarrow> 'a list \<Rightarrow> 'a list" where
  "slice_first n xs = take n xs"

text \<open>\<open>xs.slice(-n)\<close>: the last \<open>n\<close> elements, all of them when \<open>n\<close> is at least the
  length, and all of them too when \<open>n = 0\<close>, since \<open>-0\<close> is the start index 0.\<close>

definition slice_last :: "nat \<Rightarrow> 'a list \<Rightarrow> 'a list" where
  "slice_last n xs = (if n = 0 then xs else List.drop (length xs - n) xs)"

subsection \<open>\<open>rollTerm\<close>\<close>

record TermResult =
  rolls :: "DieRoll list"
  used :: "nat list"
  subtotal :: int

text \<open>\<open>rolls[i].value\<close> throws a TypeError when \<open>rolls[i]\<close> is undefined.\<close>

definition value_at :: "DieRoll list \<Rightarrow> nat \<Rightarrow> error + int" where
  "value_at rs i = (if i < length rs then Inr (dvalue (rs ! i)) else Inl TypeError)"

text \<open>\<open>used.reduce((acc, i) => acc + rolls[i].value, 0)\<close>\<close>

fun sum_used :: "DieRoll list \<Rightarrow> int \<Rightarrow> nat list \<Rightarrow> error + int" where
  "sum_used rs acc [] = Inr acc"
| "sum_used rs acc (i # is) =
     (case value_at rs i of
        Inl e \<Rightarrow> Inl e
      | Inr v \<Rightarrow> sum_used rs (double_add acc v) is)"

text \<open>The ranking \<open>sortedIdx\<close>: the comparator reads \<open>rolls\<close> at elements of
  \<open>rolls.map((_, i) => i)\<close> only.\<close>

definition sortedIdx :: "DieRoll list \<Rightarrow> nat list" where
  "sortedIdx rs =
     sort_cmp (\<lambda>a b. dvalue (rs ! b) - dvalue (rs ! a)) [0..<length rs]"

definition select_keep :: "(keep_kind \<times> nat) option \<Rightarrow> DieRoll list \<Rightarrow> nat list \<Rightarrow> nat list" where
  "select_keep k rs indices =
     (case k of
        None \<Rightarrow> indices
      | Some (kind, n) \<Rightarrow>
          if kind = kh then slice_first n (sortedIdx rs)
          else sort_cmp (\<lambda>a b. int a - int b) (slice_last n (sortedIdx rs)))"

definition select_drop :: "(drop_kind \<times> nat) option \<Rightarrow> DieRoll list \<Rightarrow> nat list \<Rightarrow> nat list" where
  "select_drop d rs indices =
     (case d of
        None \<Rightarrow> indices
      | Some (kind, n) \<Rightarrow>
          (let toDrop = (if kind = dh then slice_first n (sortedIdx rs)
                         else slice_last n (sortedIdx rs))
           in filter (\<lambda>i. i \<notin> set toDrop) indices))"

definition rollTerm :: "DiceTerm \<Rightarrow> rng \<Rightarrow> error + (TermResult \<times> rng)" where
  "rollTerm t g =
     (case array_from (count t) (sides t) g of
        Inl e \<Rightarrow> Inl e
      | Inr (rs, g1) \<Rightarrow>
          (let indices = select_drop (drop_t t) rs (select_keep (keep t) rs [0..<length rs])
           in case sum_used rs 0 indices of
                Inl e \<Rightarrow> Inl e
              | Inr s \<Rightarrow> Inr (\<lparr>rolls = rs, used = indices, subtotal = s\<rparr>, g1)))"

subsection \<open>\<open>applyAdvantage\<close> and the \<open>roll_dice\<close> handler\<close>

text \<open>The detail strings \<open>adv(a, b)\<close> and \<open>dis(a, b)\<close>, kept structured.\<close>

datatype adv_detail = AdvDetail int int | DisDetail int int

definition applyAdvantage ::
  "int \<Rightarrow> nat \<Rightarrow> bool \<Rightarrow> bool \<Rightarrow> rng \<Rightarrow> (int \<times> adv_detail option) \<times> rng" where
  "applyAdvantage base sd adv dis g =
     (if sd \<noteq> 20 \<or> (\<not> adv \<and> \<not> dis) then ((base, None), g)
      else
        (case rollOnce 20 g of (a, g1) \<Rightarrow>
           (case rollOnce 20 g1 of (b, g2) \<Rightarrow>
              if adv then ((max a b, Some (AdvDetail a b)), g2)
              else ((min a b, Some (DisDetail a b)), g2))))"

text \<open>
  The records pushed on \<open>details\<close>: \<open>{type: 'modifier', value}\<close>,
  \<open>{type: 'd20', base, advOrDis, final}\<close> and
  \<open>{type: 'dice', sides, count, keep, drop, rolls, usedIndices, subtotal}\<close>.
\<close>

datatype detail =
    ModifierDetail int
  | D20Detail int "adv_detail option" int
  | DiceDetail nat nat "(keep_kind \<times> nat) option" "(drop_kind \<times> nat) option"
      "int list" "nat list" int

text \<open>The body of the \<open>for (const t of parsed.terms)\<close> loop: what is added to \<open>total\<close>,
  the record pushed on \<open>details\<close>, and the tape left.\<close>

definition resolve_term ::
  "bool \<Rightarrow> bool \<Rightarrow> expr_term \<Rightarrow> rng \<Rightarrow> error + (int \<times> detail \<times> rng)" where
  "resolve_term adv dis et g =
     (case et of
        Modifier m \<Rightarrow> Inr (m, ModifierDetail m, g)
      | Dice t \<Rightarrow>
          if count t = 1 \<and> sides t = 20 \<and> (adv \<or> dis) \<and> keep t = None \<and> drop_t t = None
          then
            (case rollOnce 20 g of (base, g1) \<Rightarrow>
               (case applyAdvantage base 20 adv dis g1 of ((v, d), g2) \<Rightarrow>
                  Inr (v, D20Detail base d v, g2)))
          else
            (case rollTerm t g of
               Inl e \<Rightarrow> Inl e
             | Inr (r, g1) \<Rightarrow>
                 Inr (subtotal r,
                      DiceDetail (sides t) (count t) (keep t) (drop_t t)
                        (map dvalue (rolls r)) (used r) (subtotal r),
                      g1)))"

fun resolve_terms ::
  "bool \<Rightarrow> bool \<Rightarrow> expr_term list \<Rightarrow> int \<Rightarrow> detail list \<Rightarrow> rng
   \<Rightarrow> error + (int \<times> detail list \<times> rng)" where
  "resolve_terms adv dis [] tot details g = Inr (tot, details, g)"
| "resolve_terms adv dis (et # ets) tot details g =
     (case resolve_term adv dis et g of
        Inl e \<Rightarrow> Inl e
      | Inr (v, d, g1) \<Rightarrow> resolve_terms adv dis ets (double_add tot v) (details @ [d]) g1)"

definition resolve :: "ParsedExpression \<Rightarrow> rng \<Rightarrow> error + (int \<times> detail list \<times> rng)" where
  "resolve parsed g =
     resolve_terms (advantage parsed) (disadvantage parsed) (terms parsed) 0 [] g"

text \<open>The handler's \<open>structuredContent\<close> without the notation: \<open>total\<close> and \<open>details\<close>,
  and the tape left.\<close>

definition roll_dice :: "string \<Rightarrow> rng \<Rightarrow> error + (int \<times> detail list \<times> rng)" where
  "roll_dice notation g =
     (case parseNotation notation of
        Inl e \<Rightarrow> Inl e
      | Inr parsed \<Rightarrow> resolve parsed g)"

section \<open>Notions used in the properties\<close>

text \<open>What a term built by the parser looks like.\<close>

definition parsed_term :: "DiceTerm \<Rightarrow> bool" where
  "parsed_term t =
     (1 \<le> count t \<and> (keep t = None \<or> drop_t t = None) \<and>
      (case keep t of None \<Rightarrow> True | Some (k, n) \<Rightarrow> 1 \<le> n) \<and>
      (case drop_t t of None \<Rightarrow> True | Some (k, n) \<Rightarrow> 1 \<le> n))"

text \<open>The runs and the flags \<open>parseNotation\<close> works on.\<close>

definition runs :: "string \<Rightarrow> string list" where
  "runs notation = parts_of (fst (strip_flags (tokenize notation) False False))"

definition adv_seen :: "string \<Rightarrow> bool" where
  "adv_seen notation = fst (snd (strip_flags (tokenize notation) False False))"

definition dis_seen :: "string \<Rightarrow> bool" where
  "dis_seen notation = snd (snd (strip_flags (tokenize notation) False False))"

text \<open>The count and the sides the parser gives a dice term.\<close>

definition count_of :: "string \<Rightarrow> nat" where
  "count_of cnt = (if cnt = [] \<or> parseInt cnt = 0 then 1 else parseInt cnt)"

text \<open>The order of the ranking: higher value first, equal values by lower index.\<close>

definition ranks_before :: "DieRoll list \<Rightarrow> nat \<Rightarrow> nat \<Rightarrow> bool" where
  "ranks_before rs a b =
     (dvalue (rs ! b) < dvalue (rs ! a) \<or> (dvalue (rs ! a) = dvalue (rs ! b) \<and> a < b))"




text \<open>The indices \<open>rollTerm\<close> uses, given the rolls.\<close>

definition used_of :: "DiceTerm \<Rightarrow> DieRoll list \<Rightarrow> nat list" where
  "used_of t rs = select_drop (drop_t t) rs (select_keep (keep t) rs [0..<length rs])"

text \<open>A tape that starts with the given results and goes on with zeros.\<close>

definition tape_of :: "real list \<Rightarrow> rng" where
  "tape_of xs = (\<lambda>i. if i < length xs then xs ! i else 0)"

text \<open>What the handler returns, without the tape.\<close>

definition outcome :: "error + (int \<times> detail list \<times> rng) \<Rightarrow> error + (int \<times> detail list)" where
  "outcome res = (case res of Inl e \<Rightarrow> Inl e | Inr (tot, details, g) \<Rightarrow> Inr (tot, details))"

text \<open>The sum of a list of numbers as the program adds them: from 0, left to right, in
  doubles.\<close>

definition double_sum :: "int list \<Rightarrow> int" where
  "double_sum xs = foldl double_add 0 xs"

text \<open>Every sum of the first \<open>k\<close> numbers is below \<open>2 ^ 53\<close> in magnitude.\<close>

definition safe_sums :: "int list \<Rightarrow> bool" where
  "safe_sums xs = list_all (\<lambda>k. \<bar>sum_list (take k xs)\<bar> < 2 ^ 53) [0..<Suc (length xs)]"

text \<open>What a detail record adds to the total.\<close>

fun contribution :: "detail \<Rightarrow> int" where
  "contribution (ModifierDetail v) = v"
| "contribution (D20Detail base ad final) = final"
| "contribution (DiceDetail sd c k d vs us st) = st"

text \<open>A detail record is the record of a term.\<close>

fun detail_for :: "expr_term \<Rightarrow> detail \<Rightarrow> bool" where
  "detail_for (Modifier m) (ModifierDetail v) = (v = m)"
| "detail_for (Dice t) (D20Detail base ad final) =
     (count t = 1 \<and> sides t = 20 \<and> keep t = None \<and> drop_t t = None)"
| "detail_for (Dice t) (DiceDetail sd c k d vs us st) =
     (sd = sides t \<and> c = count t \<and> k = keep t \<and> d = drop_t t \<and> length vs = count t)"
| "detail_for et d = False"

text \<open>The subtotal of a dice record is the sum, in doubles, of the rolls at its used
  indices: their exact sum when every sum of the first ones is below \<open>2 ^ 53\<close>.\<close>

fun subtotal_ok :: "detail \<Rightarrow> bool" where
  "subtotal_ok (DiceDetail sd c k d vs us st) =
     (list_all (\<lambda>i. i < length vs) us \<and> st = double_sum (map (\<lambda>i. vs ! i) us) \<and>
      (safe_sums (map (\<lambda>i. vs ! i) us) \<longrightarrow> st = sum_list (map (\<lambda>i. vs ! i) us)))"
| "subtotal_ok d = True"

text \<open>
  The signed runs of the spec (section 4.1, steps 1 to 4): the flag words stripped, the
  other tokens joined, a \<open>+\<close> put in front when the first character is not \<open>+\<close> or \<open>-\<close>,
  and the result split before every sign.
\<close>

definition joined :: "string \<Rightarrow> string" where
  "joined notation = concat (fst (strip_flags (tokenize notation) False False))"



definition leading_minus :: "string \<Rightarrow> bool" where
  "leading_minus notation = (case joined notation of [] \<Rightarrow> False | c # cs \<Rightarrow> c = CHR ''-'')"

text \<open>The two forms of a run in the grammar of the spec: \<open>sign digits\<close>, and
  \<open>sign digits? d digits (selector digits)?\<close>.\<close>

definition digits :: "string \<Rightarrow> bool" where
  "digits s = (s \<noteq> [] \<and> list_all is_digit s)"



section \<open>Properties\<close>

subsection \<open>Numbers\<close>

lemma exponent_small: "n < 2 ^ 53 \<Longrightarrow> exponent n = 0"
  by (subst exponent.simps) simp

lemma nearest_double_small: "n < 2 ^ 53 \<Longrightarrow> nearest_double n = n"
  by (simp add: nearest_double_def exponent_small)

lemma double_of_int_small: "\<bar>x\<bar> < 2 ^ 53 \<Longrightarrow> double_of_int x = x"
  by (simp add: double_of_int_def nearest_double_small)

lemma double_add_small: "\<bar>a + b\<bar> < 2 ^ 53 \<Longrightarrow> double_add a b = a + b"
  by (simp add: double_add_def double_of_int_small)

lemma double_sum_Nil [simp]: "double_sum [] = 0"
  by (simp add: double_sum_def)

lemma foldl_double_add_exact:
  "\<forall>k\<le>length xs. \<bar>acc + sum_list (take k xs)\<bar> < 2 ^ 53 \<Longrightarrow>
   foldl double_add acc xs = acc + sum_list xs"
proof (induction xs arbitrary: acc)
  case Nil
  then show ?case by simp
next
  case (Cons x xs)
  have "Suc 0 \<le> length (x # xs)" by simp
  with Cons.prems have "\<bar>acc + sum_list (take (Suc 0) (x # xs))\<bar> < 2 ^ 53" by blast
  then have a: "double_add acc x = acc + x"
    by (simp add: double_add_small)
  have "\<forall>k\<le>length xs. \<bar>(acc + x) + sum_list (take k xs)\<bar> < 2 ^ 53"
  proof (intro allI impI)
    fix k assume "k \<le> length xs"
    then have "Suc k \<le> length (x # xs)" by simp
    with Cons.prems have "\<bar>acc + sum_list (take (Suc k) (x # xs))\<bar> < 2 ^ 53" by blast
    then show "\<bar>(acc + x) + sum_list (take k xs)\<bar> < 2 ^ 53" by (simp add: add.assoc)
  qed
  from Cons.IH [OF this] a show ?case by (simp add: add.assoc)
qed

lemma double_sum_exact:
  assumes "safe_sums xs"
  shows "double_sum xs = sum_list xs"
proof -
  have "\<forall>k\<le>length xs. \<bar>0 + sum_list (take k xs)\<bar> < 2 ^ 53"
  proof (intro allI impI)
    fix k assume "k \<le> length xs"
    then have "k \<in> set [0..<Suc (length xs)]" by auto
    with assms have "\<bar>sum_list (take k xs)\<bar> < 2 ^ 53"
      unfolding safe_sums_def list_all_iff by blast
    then show "\<bar>0 + sum_list (take k xs)\<bar> < 2 ^ 53" by simp
  qed
  from foldl_double_add_exact [OF this] show ?thesis by (simp add: double_sum_def)
qed

lemma decimal_snoc: "decimal (s @ [c]) = 10 * decimal s + (of_char c - 48)"
  by (simp add: decimal_def)

lemma decimal_zeros: "set zs \<subseteq> {CHR ''0''} \<Longrightarrow> decimal zs = 0"
  by (induction zs rule: rev_induct) (simp_all add: decimal_snoc, simp add: decimal_def)

subsection \<open>What the term pattern matches\<close>

lemma not_digit_d [simp]: "\<not> is_digit CHR ''d''" "\<not> is_digit CHR ''k''"
  by (simp_all add: is_digit_def)

lemma is_kd_hd: "is_kd kd \<Longrightarrow> \<exists>a b. kd = [a, b] \<and> \<not> is_digit a"
  unfolding is_kd_def by (elim disjE) simp_all

lemma match_selector_Nil [simp]: "match_selector [] = Some None"
  by (simp add: match_selector_def)

lemma match_selector_kd:
  "is_kd kd \<Longrightarrow> ns \<noteq> [] \<Longrightarrow> list_all is_digit ns \<Longrightarrow>
   match_selector (kd @ ns) = Some (Some (kd, ns))"
  by (auto simp: match_selector_def is_kd_def)

lemma match_selector_SomeD:
  "match_selector r = Some (Some (kd, ns)) \<Longrightarrow>
   r = kd @ ns \<and> is_kd kd \<and> ns \<noteq> [] \<and> list_all is_digit ns"
  by (auto simp: match_selector_def split: if_splits)

lemma match_selector_NoneD: "match_selector r = Some None \<Longrightarrow> r = []"
  by (auto simp: match_selector_def split: if_splits)

lemma takeWhile_digits_stop:
  "list_all is_digit ds \<Longrightarrow> \<not> is_digit c \<Longrightarrow> takeWhile is_digit (ds @ c # r) = ds"
  by (induction ds) auto

lemma dropWhile_digits_stop:
  "list_all is_digit ds \<Longrightarrow> \<not> is_digit c \<Longrightarrow> dropWhile is_digit (ds @ c # r) = c # r"
  by (induction ds) auto

lemma takeWhile_digits_all: "list_all is_digit ds \<Longrightarrow> takeWhile is_digit ds = ds"
  by (induction ds) auto

lemma dropWhile_digits_all: "list_all is_digit ds \<Longrightarrow> dropWhile is_digit ds = []"
  by (induction ds) auto

lemma match_body_mod:
  "md \<noteq> [] \<Longrightarrow> list_all is_digit md \<Longrightarrow> match_body sg md = Some (ModMatch sg md)"
  by (simp add: match_body_def takeWhile_digits_all dropWhile_digits_all)

lemma match_body_dice_plain:
  "list_all is_digit cnt \<Longrightarrow> sd \<noteq> [] \<Longrightarrow> list_all is_digit sd \<Longrightarrow>
   match_body sg (cnt @ CHR ''d'' # sd) = Some (DiceMatch sg cnt sd None)"
  by (simp add: match_body_def takeWhile_digits_stop dropWhile_digits_stop
      takeWhile_digits_all dropWhile_digits_all)

lemma match_body_dice_sel:
  assumes "list_all is_digit cnt" "sd \<noteq> []" "list_all is_digit sd"
    "is_kd kd" "ns \<noteq> []" "list_all is_digit ns"
  shows "match_body sg (cnt @ CHR ''d'' # sd @ kd @ ns) = Some (DiceMatch sg cnt sd (Some (kd, ns)))"
proof -
  obtain a b where kd: "kd = [a, b]" "\<not> is_digit a"
    using is_kd_hd [OF assms(4)] by blast
  have t: "takeWhile is_digit (sd @ kd @ ns) = sd" "dropWhile is_digit (sd @ kd @ ns) = kd @ ns"
    using assms(3) kd by (simp_all add: takeWhile_digits_stop dropWhile_digits_stop)
  show ?thesis
    using assms
    by (simp add: match_body_def takeWhile_digits_stop dropWhile_digits_stop t
        match_selector_kd)
qed

lemma match_body_SomeD:
  assumes "match_body sg body = Some m"
  shows "(\<exists>md. m = ModMatch sg md \<and> body = md \<and> md \<noteq> [] \<and> list_all is_digit md) \<or>
         (\<exists>cnt sd sel. m = DiceMatch sg cnt sd sel \<and> list_all is_digit cnt \<and> sd \<noteq> [] \<and>
            list_all is_digit sd \<and>
            (case sel of
               None \<Rightarrow> body = cnt @ CHR ''d'' # sd
             | Some (kd, ns) \<Rightarrow> is_kd kd \<and> ns \<noteq> [] \<and> list_all is_digit ns \<and>
                 body = cnt @ CHR ''d'' # sd @ kd @ ns))"
proof -
  define cnt r1 where "cnt = takeWhile is_digit body" and "r1 = dropWhile is_digit body"
  have split1: "body = cnt @ r1" by (simp add: cnt_def r1_def)
  have dc: "list_all is_digit cnt"
    unfolding cnt_def list_all_iff by (meson set_takeWhileD)
  have mb: "(case r1 of
        [] \<Rightarrow> if cnt \<noteq> [] then Some (ModMatch sg cnt) else None
      | c # r2 \<Rightarrow>
          if c = CHR ''d'' then
            (let sd = takeWhile is_digit r2; r3 = dropWhile is_digit r2 in
             if sd = [] then None
             else (case match_selector r3 of
                     None \<Rightarrow> None
                   | Some sel \<Rightarrow> Some (DiceMatch sg cnt sd sel)))
          else None) = Some m"
    using assms unfolding match_body_def cnt_def r1_def Let_def .
  show ?thesis
  proof (cases r1)
    case Nil
    with mb have "m = ModMatch sg cnt" "cnt \<noteq> []"
      by (auto split: if_splits)
    moreover from Nil split1 have "body = cnt" by simp
    ultimately show ?thesis using dc by blast
  next
    case (Cons c r2)
    define sd r3 where "sd = takeWhile is_digit r2" and "r3 = dropWhile is_digit r2"
    have ds: "list_all is_digit sd"
      unfolding sd_def list_all_iff by (meson set_takeWhileD)
    from mb Cons obtain sel where
      c: "c = CHR ''d''" and sd: "sd \<noteq> []" and sel: "match_selector r3 = Some sel"
      and m: "m = DiceMatch sg cnt sd sel"
      by (auto simp: Let_def sd_def r3_def split: if_splits option.splits)
    have "r2 = sd @ r3" by (simp add: sd_def r3_def)
    with split1 Cons c have body: "body = cnt @ CHR ''d'' # sd @ r3"
      by simp
    show ?thesis
    proof (cases sel)
      case None
      have "r3 = []" using sel None match_selector_NoneD by blast
      with body have "body = cnt @ CHR ''d'' # sd" by simp
      with m None dc ds sd show ?thesis by simp
    next
      case (Some p)
      obtain kd ns where p: "p = (kd, ns)" by (cases p)
      have r3: "r3 = kd @ ns \<and> is_kd kd \<and> ns \<noteq> [] \<and> list_all is_digit ns"
        using sel Some p match_selector_SomeD by blast
      with body have "body = cnt @ CHR ''d'' # sd @ kd @ ns"
        by simp
      with r3 m Some p dc ds sd show ?thesis by simp
    qed
  qed
qed

subsection \<open>The terms \<open>parseNotation\<close> builds\<close>

lemma match_termRe_SomeD:
  assumes "match_termRe p = Some m"
  shows "\<exists>sg body. p = sg # body \<and> is_sign sg \<and> match_body sg body = Some m"
  using assms by (cases p) (auto split: if_splits)

lemma kd_of_fields:
  "count (kd_of kd n t) = count t" "sides (kd_of kd n t) = sides t"
  by (simp_all add: kd_of_def)

lemma kd_of_keep_drop:
  "keep t = None \<Longrightarrow> drop_t t = None \<Longrightarrow>
   (keep (kd_of kd n t) = None \<or> drop_t (kd_of kd n t) = None) \<and>
   (\<forall>k m. keep (kd_of kd n t) = Some (k, m) \<longrightarrow> m = n) \<and>
   (\<forall>k m. drop_t (kd_of kd n t) = Some (k, m) \<longrightarrow> m = n)"
  by (simp add: kd_of_def)

lemma parsed_term_kd_of:
  "1 \<le> n \<Longrightarrow> 1 \<le> c \<Longrightarrow>
   parsed_term (kd_of kd n \<lparr>count = c, sides = s, keep = None, drop_t = None\<rparr>)"
  by (simp add: parsed_term_def kd_of_def)

lemma parse_part_parsed_term:
  assumes "parse_part p = Inr (Dice t)"
  shows "parsed_term t"
proof (cases "match_termRe p")
  case None
  with assms show ?thesis by (simp add: parse_part_def)
next
  case (Some m)
  show ?thesis
  proof (cases m)
    case (ModMatch sg md)
    with assms Some show ?thesis by (simp add: parse_part_def)
  next
    case (DiceMatch sg cnt sd sel)
    define c where "c = (if cnt \<noteq> [] then parseInt cnt else 1)"
    define c1 where "c1 = (if c \<noteq> 0 then c else 1)"
    have c1: "1 \<le> c1" by (simp add: c1_def)
    define t0 where "t0 = \<lparr>count = c1, sides = parseInt sd, keep = None, drop_t = None\<rparr>"
    have t0: "parsed_term t0" using c1 by (simp add: parsed_term_def t0_def)
    have pp: "parse_part p =
       (if sg = CHR ''-'' then Inl (NegativeDicePools p)
        else case sel of None \<Rightarrow> Inr (Dice t0)
             | Some (kd, ns) \<Rightarrow>
                 if parseInt ns \<noteq> 0 then Inr (Dice (kd_of kd (parseInt ns) t0))
                 else Inr (Dice t0))"
      using Some DiceMatch
      by (simp add: parse_part_def Let_def t0_def c1_def c_def split: option.splits prod.splits)
    show ?thesis
    proof (cases sel)
      case None
      with pp assms t0 show ?thesis by (simp split: if_splits)
    next
      case (Some q)
      obtain kd ns where q: "q = (kd, ns)" by (cases q)
      show ?thesis
      proof (cases "parseInt ns = 0")
        case True
        with pp assms t0 Some q show ?thesis by (simp split: if_splits)
      next
        case False
        then have "parsed_term (kd_of kd (parseInt ns) t0)"
          using c1 unfolding t0_def by (intro parsed_term_kd_of) simp_all
        with pp assms Some q False show ?thesis by (simp split: if_splits)
      qed
    qed
  qed
qed

lemma parse_parts_all2:
  "parse_parts ps acc = Inr ts \<Longrightarrow>
   \<exists>new. ts = acc @ new \<and> list_all2 (\<lambda>p t. parse_part p = Inr t) ps new"
proof (induction ps arbitrary: acc)
  case Nil
  then show ?case by simp
next
  case (Cons p ps)
  then obtain t where t: "parse_part p = Inr t" and rest: "parse_parts ps (acc @ [t]) = Inr ts"
    by (auto split: sum.splits)
  from Cons.IH [OF rest] obtain new where
    "ts = (acc @ [t]) @ new" "list_all2 (\<lambda>p t. parse_part p = Inr t) ps new"
    by blast
  then have "ts = acc @ (t # new) \<and> list_all2 (\<lambda>p t. parse_part p = Inr t) (p # ps) (t # new)"
    using t by simp
  then show ?case by blast
qed


lemma parseNotation_runs:
  "parseNotation s =
     (case parse_parts (runs s) [] of
        Inl e \<Rightarrow> Inl e
      | Inr ts \<Rightarrow>
          if adv_seen s \<and> dis_seen s then Inl BothAdvDis
          else Inr \<lparr>terms = ts, advantage = adv_seen s, disadvantage = dis_seen s\<rparr>)"
proof -
  obtain toks a d where sf: "strip_flags (tokenize s) False False = (toks, a, d)"
    by (cases "strip_flags (tokenize s) False False")
  have fl: "adv_seen s = a" "dis_seen s = d" "runs s = parts_of toks"
    by (simp_all add: runs_def adv_seen_def dis_seen_def sf)
  show ?thesis
    unfolding fl by (simp add: parseNotation_def sf)
qed

lemma parseNotation_terms:
  assumes "parseNotation s = Inr e"
  shows "list_all2 (\<lambda>p t. parse_part p = Inr t) (runs s) (terms e)"
proof -
  from assms obtain ts where ts: "parse_parts (runs s) [] = Inr ts" and e: "terms e = ts"
    by (auto simp: parseNotation_runs split: sum.splits if_splits)
  from parse_parts_all2 [OF ts] e show ?thesis by simp
qed

lemma parseNotation_term_part:
  assumes "parseNotation s = Inr e" "et \<in> set (terms e)"
  shows "\<exists>p\<in>set (runs s). parse_part p = Inr et"
proof -
  from assms(2) obtain k where k: "k < length (terms e)" "terms e ! k = et"
    by (auto simp: in_set_conv_nth)
  from parseNotation_terms [OF assms(1)] k
  have "length (runs s) = length (terms e)" "parse_part (runs s ! k) = Inr et"
    by (auto simp: list_all2_conv_all_nth)
  with k show ?thesis by (metis nth_mem)
qed

lemma parseNotation_parsed_term:
  assumes "parseNotation s = Inr e" "Dice t \<in> set (terms e)"
  shows "parsed_term t"
  using parseNotation_term_part [OF assms] parse_part_parsed_term by blast

subsection \<open>Dice-term runs\<close>

lemma parseInt_zeros: "set zs \<subseteq> {CHR ''0''} \<Longrightarrow> parseInt zs = 0"
  by (simp add: parseInt_def decimal_zeros double_of_int_small)

lemma zeros_digits: "set zs \<subseteq> {CHR ''0''} \<Longrightarrow> list_all is_digit zs"
  by (auto simp: list_all_iff is_digit_def)

lemma match_termRe_dice_plain:
  "list_all is_digit cnt \<Longrightarrow> sd \<noteq> [] \<Longrightarrow> list_all is_digit sd \<Longrightarrow>
   match_termRe (CHR ''+'' # cnt @ CHR ''d'' # sd) = Some (DiceMatch CHR ''+'' cnt sd None)"
  by (simp add: is_sign_def match_body_dice_plain)

lemma match_termRe_dice_sel:
  "list_all is_digit cnt \<Longrightarrow> sd \<noteq> [] \<Longrightarrow> list_all is_digit sd \<Longrightarrow>
   is_kd kd \<Longrightarrow> ns \<noteq> [] \<Longrightarrow> list_all is_digit ns \<Longrightarrow>
   match_termRe (CHR ''+'' # cnt @ CHR ''d'' # sd @ kd @ ns) =
     Some (DiceMatch CHR ''+'' cnt sd (Some (kd, ns)))"
  by (simp add: is_sign_def match_body_dice_sel)

lemma parse_part_dice_plain:
  assumes "list_all is_digit cnt" "sd \<noteq> []" "list_all is_digit sd"
  shows "parse_part (CHR ''+'' # cnt @ CHR ''d'' # sd) =
     Inr (Dice \<lparr>count = count_of cnt, sides = parseInt sd, keep = None, drop_t = None\<rparr>)"
  unfolding parse_part_def match_termRe_dice_plain [OF assms]
  by (simp add: count_of_def)

lemma parse_part_dice_sel:
  assumes "list_all is_digit cnt" "sd \<noteq> []" "list_all is_digit sd"
    "is_kd kd" "ns \<noteq> []" "list_all is_digit ns"
  shows "parse_part (CHR ''+'' # cnt @ CHR ''d'' # sd @ kd @ ns) =
     Inr (Dice (if parseInt ns \<noteq> 0
                then kd_of kd (parseInt ns)
                  \<lparr>count = count_of cnt, sides = parseInt sd, keep = None, drop_t = None\<rparr>
                else \<lparr>count = count_of cnt, sides = parseInt sd, keep = None, drop_t = None\<rparr>))"
  unfolding parse_part_def match_termRe_dice_sel [OF assms]
  by (simp add: count_of_def Let_def)

text \<open>
  Claim C8, amended. A dice-term run with a selector \<open>kh\<close>, \<open>kl\<close>, \<open>dh\<close> or \<open>dl\<close> and digits
  \<open>n\<close> after it parses to a term whose \<open>keep\<close> (for \<open>kh\<close>, \<open>kl\<close>) or \<open>drop\<close> (for \<open>dh\<close>,
  \<open>dl\<close>) holds that kind and \<open>n\<close>, when the value of \<open>n\<close> is not zero. When it is zero, the
  guard \<open>if (kd && n)\<close> leaves both fields absent.
\<close>

theorem selector_populated_when_nonzero:
  assumes "list_all is_digit cnt" "sd \<noteq> []" "list_all is_digit sd"
    "is_kd kd" "ns \<noteq> []" "list_all is_digit ns"
  shows "\<exists>t. parse_part (CHR ''+'' # cnt @ CHR ''d'' # sd @ kd @ ns) = Inr (Dice t) \<and>
     keep t = (if parseInt ns = 0 then None
               else if kd = ''kh'' then Some (kh, parseInt ns)
               else if kd = ''kl'' then Some (kl, parseInt ns)
               else None) \<and>
     drop_t t = (if parseInt ns = 0 then None
                 else if kd = ''dh'' then Some (dh, parseInt ns)
                 else if kd = ''dl'' then Some (dl, parseInt ns)
                 else None)"
proof -
  have kd: "kd = ''kh'' \<or> kd = ''kl'' \<or> kd = ''dh'' \<or> kd = ''dl''"
    using assms(4) by (simp add: is_kd_def)
  show ?thesis
    unfolding parse_part_dice_sel [OF assms]
    using kd by (elim disjE) (simp_all add: kd_of_def)
qed

theorem selector_populated_when_nonzero_witness:
  "\<exists>t. parse_part ''+4d6kh3'' = Inr (Dice t) \<and> keep t = Some (kh, 3) \<and> drop_t t = None"
proof -
  have three: "parseInt ''3'' = 3" by code_simp
  show ?thesis
    using selector_populated_when_nonzero [of "''4''" "''6''" "''kh''" "''3''"]
    by (simp add: is_digit_def is_kd_def three)
qed

text \<open>
  Claim C8 as stated fails for a written \<open>n\<close> of 0: \<open>4d6kh0\<close> parses to a term without
  \<open>keep\<close>.
\<close>

theorem selector_zero_counterexample:
  "parseNotation ''4d6kh0'' =
     Inr \<lparr>terms = [Dice \<lparr>count = 4, sides = 6, keep = None, drop_t = None\<rparr>],
          advantage = False, disadvantage = False\<rparr>"
  by code_simp

lemma parse_part_dice_run:
  assumes "parse_part p = Inr (Dice t)"
  shows "\<exists>cnt sd sel. p = CHR ''+'' # cnt @ CHR ''d'' # sd @ sel \<and> list_all is_digit cnt \<and>
     digits sd \<and> (sel = [] \<or> (\<exists>kd ns. sel = kd @ ns \<and> is_kd kd \<and> digits ns)) \<and>
     count t = count_of cnt \<and> sides t = parseInt sd"
proof (cases "match_termRe p")
  case None
  with assms show ?thesis by (simp add: parse_part_def)
next
  case (Some m)
  from match_termRe_SomeD [OF Some] obtain sg body where
    p: "p = sg # body" "is_sign sg" and mb: "match_body sg body = Some m"
    by blast
  show ?thesis
  proof (cases m)
    case (ModMatch sg' md)
    with assms Some show ?thesis by (simp add: parse_part_def)
  next
    case (DiceMatch sg' cnt sd sel)
    from match_body_SomeD [OF mb] DiceMatch have
      sg: "sg' = sg" and d: "list_all is_digit cnt" "sd \<noteq> []" "list_all is_digit sd" and
      b: "(case sel of
             None \<Rightarrow> body = cnt @ CHR ''d'' # sd
           | Some (kd, ns) \<Rightarrow> is_kd kd \<and> ns \<noteq> [] \<and> list_all is_digit ns \<and>
               body = cnt @ CHR ''d'' # sd @ kd @ ns)"
      by auto
    define t0 where "t0 = \<lparr>count = count_of cnt, sides = parseInt sd, keep = None, drop_t = None\<rparr>"
    have pp: "parse_part p =
       (if sg = CHR ''-'' then Inl (NegativeDicePools p)
        else case sel of None \<Rightarrow> Inr (Dice t0)
             | Some (kd, ns) \<Rightarrow>
                 if parseInt ns \<noteq> 0 then Inr (Dice (kd_of kd (parseInt ns) t0))
                 else Inr (Dice t0))"
      using Some DiceMatch sg
      by (simp add: parse_part_def Let_def t0_def count_of_def split: option.splits prod.splits)
    from pp assms have plus: "sg = CHR ''+''"
      using p(2) by (auto simp: is_sign_def split: if_splits)
    from pp assms plus have "t = t0 \<or> (\<exists>kd n. t = kd_of kd n t0)"
      by (auto split: option.splits if_splits)
    then have f: "count t = count_of cnt" "sides t = parseInt sd"
      by (auto simp: kd_of_fields t0_def)
    have "\<exists>sel'. body = cnt @ CHR ''d'' # sd @ sel' \<and>
        (sel' = [] \<or> (\<exists>kd ns. sel' = kd @ ns \<and> is_kd kd \<and> digits ns))"
    proof (cases sel)
      case None
      with b have "body = cnt @ CHR ''d'' # sd @ []" by simp
      then show ?thesis by blast
    next
      case (Some q)
      obtain kd ns where "q = (kd, ns)" by (cases q)
      with b Some have "body = cnt @ CHR ''d'' # sd @ (kd @ ns)" "is_kd kd" "digits ns"
        by (simp_all add: digits_def)
      then show ?thesis by blast
    qed
    with p plus d f show ?thesis unfolding digits_def by blast
  qed
qed

lemma parse_part_dice_sides:
  assumes "parse_part (CHR ''+'' # cnt @ CHR ''d'' # sd @ sel) = Inr (Dice t)"
    "list_all is_digit cnt" "digits sd"
    "sel = [] \<or> (\<exists>kd ns. sel = kd @ ns \<and> is_kd kd \<and> digits ns)"
  shows "sides t = parseInt sd"
proof -
  have sd: "sd \<noteq> []" "list_all is_digit sd" using assms(3) by (simp_all add: digits_def)
  from assms(4) show ?thesis
  proof
    assume "sel = []"
    with assms(1) parse_part_dice_plain [OF assms(2) sd]
    have "t = \<lparr>count = count_of cnt, sides = parseInt sd, keep = None, drop_t = None\<rparr>"
      by simp
    then show ?thesis by simp
  next
    assume "\<exists>kd ns. sel = kd @ ns \<and> is_kd kd \<and> digits ns"
    then obtain kd ns where k: "sel = kd @ ns" "is_kd kd" "ns \<noteq> []" "list_all is_digit ns"
      unfolding digits_def by blast
    from assms(1) parse_part_dice_sel [OF assms(2) sd k(2-4)] k(1)
    have "t = (if parseInt ns \<noteq> 0
                then kd_of kd (parseInt ns)
                  \<lparr>count = count_of cnt, sides = parseInt sd, keep = None, drop_t = None\<rparr>
                else \<lparr>count = count_of cnt, sides = parseInt sd, keep = None, drop_t = None\<rparr>)"
      by simp
    then show ?thesis by (simp add: kd_of_fields)
  qed
qed

text \<open>
  Claim C6, amended. The terms of a successfully parsed notation are one for each run, in
  order; every dice term has \<open>count \<ge> 1\<close> and at most one of \<open>keep\<close> and \<open>drop\<close>; its run
  is \<open>+\<close>, digits or none, \<open>d\<close>, digits and a selector with digits or none, and its
  \<open>sides\<close> is \<open>parseInt\<close> of the digits after the \<open>d\<close>, the double nearest to the number they
  write, which may be 0.
\<close>

theorem parsed_terms_invariant:
  assumes "parseNotation s = Inr e"
  shows "length (runs s) = length (terms e) \<and>
     (\<forall>k t. k < length (terms e) \<and> terms e ! k = Dice t \<longrightarrow>
        1 \<le> count t \<and> (keep t = None \<or> drop_t t = None) \<and>
        (\<exists>cnt sd sel. runs s ! k = CHR ''+'' # cnt @ CHR ''d'' # sd @ sel \<and>
           list_all is_digit cnt \<and> digits sd \<and>
           (sel = [] \<or> (\<exists>kd ns. sel = kd @ ns \<and> is_kd kd \<and> digits ns)) \<and>
           sides t = parseInt sd) \<and>
        (\<forall>cnt sd sel. runs s ! k = CHR ''+'' # cnt @ CHR ''d'' # sd @ sel \<and>
           list_all is_digit cnt \<and> digits sd \<and>
           (sel = [] \<or> (\<exists>kd ns. sel = kd @ ns \<and> is_kd kd \<and> digits ns)) \<longrightarrow>
           sides t = parseInt sd))"
proof -
  note all2 = parseNotation_terms [OF assms]
  then have len: "length (runs s) = length (terms e)"
    by (simp add: list_all2_lengthD)
  have each: "1 \<le> count t \<and> (keep t = None \<or> drop_t t = None) \<and>
        (\<exists>cnt sd sel. runs s ! k = CHR ''+'' # cnt @ CHR ''d'' # sd @ sel \<and>
           list_all is_digit cnt \<and> digits sd \<and>
           (sel = [] \<or> (\<exists>kd ns. sel = kd @ ns \<and> is_kd kd \<and> digits ns)) \<and>
           sides t = parseInt sd) \<and>
        (\<forall>cnt sd sel. runs s ! k = CHR ''+'' # cnt @ CHR ''d'' # sd @ sel \<and>
           list_all is_digit cnt \<and> digits sd \<and>
           (sel = [] \<or> (\<exists>kd ns. sel = kd @ ns \<and> is_kd kd \<and> digits ns)) \<longrightarrow>
           sides t = parseInt sd)"
    if k: "k < length (terms e) \<and> terms e ! k = Dice t" for k t
  proof -
    from all2 k have pp: "parse_part (runs s ! k) = Inr (Dice t)"
      by (auto simp: list_all2_conv_all_nth)
    have "Dice t \<in> set (terms e)" using k by (metis nth_mem)
    then have inv: "1 \<le> count t \<and> (keep t = None \<or> drop_t t = None)"
      using parseNotation_parsed_term [OF assms] by (simp add: parsed_term_def)
    have ex: "\<exists>cnt sd sel. runs s ! k = CHR ''+'' # cnt @ CHR ''d'' # sd @ sel \<and>
           list_all is_digit cnt \<and> digits sd \<and>
           (sel = [] \<or> (\<exists>kd ns. sel = kd @ ns \<and> is_kd kd \<and> digits ns)) \<and>
           sides t = parseInt sd"
      using parse_part_dice_run [OF pp] by blast
    have un: "\<forall>cnt sd sel. runs s ! k = CHR ''+'' # cnt @ CHR ''d'' # sd @ sel \<and>
           list_all is_digit cnt \<and> digits sd \<and>
           (sel = [] \<or> (\<exists>kd ns. sel = kd @ ns \<and> is_kd kd \<and> digits ns)) \<longrightarrow>
           sides t = parseInt sd"
    proof (intro allI impI)
      fix cnt sd sel
      assume a: "runs s ! k = CHR ''+'' # cnt @ CHR ''d'' # sd @ sel \<and>
           list_all is_digit cnt \<and> digits sd \<and>
           (sel = [] \<or> (\<exists>kd ns. sel = kd @ ns \<and> is_kd kd \<and> digits ns))"
      with pp have "parse_part (CHR ''+'' # cnt @ CHR ''d'' # sd @ sel) = Inr (Dice t)" by simp
      from parse_part_dice_sides [OF this] a show "sides t = parseInt sd" by blast
    qed
    from inv ex un show ?thesis by simp
  qed
  from len each show ?thesis by blast
qed

lemma parse_rounded_sides:
  "parseNotation ''1d9007199254740993'' =
     Inr \<lparr>terms = [Dice \<lparr>count = 1, sides = 9007199254740992, keep = None, drop_t = None\<rparr>],
          advantage = False, disadvantage = False\<rparr>"
proof -
  have r: "runs ''1d9007199254740993'' = [''+1d9007199254740993'']" by code_simp
  have f: "adv_seen ''1d9007199254740993'' = False" "dis_seen ''1d9007199254740993'' = False"
    by code_simp+
  have "double_of_int (decimal ''9007199254740993'') = 9007199254740992" by code_simp
  then have big: "parseInt ''9007199254740993'' = 9007199254740992"
    by (simp add: parseInt_def)
  have one: "count_of ''1'' = 1" by code_simp
  have "parse_part (CHR ''+'' # ''1'' @ CHR ''d'' # ''9007199254740993'') =
      Inr (Dice \<lparr>count = count_of ''1'', sides = parseInt ''9007199254740993'',
                 keep = None, drop_t = None\<rparr>)"
    by (rule parse_part_dice_plain) (simp_all add: is_digit_def)
  then have "parse_part ''+1d9007199254740993'' =
      Inr (Dice \<lparr>count = 1, sides = 9007199254740992, keep = None, drop_t = None\<rparr>)"
    by (simp add: one big)
  then show ?thesis
    by (simp add: parseNotation_runs r f)
qed

theorem parsed_terms_invariant_witness:
  "parseNotation ''1d9007199254740993'' =
     Inr \<lparr>terms = [Dice \<lparr>count = 1, sides = 9007199254740992, keep = None, drop_t = None\<rparr>],
          advantage = False, disadvantage = False\<rparr> \<and>
   runs ''1d9007199254740993'' = [''+1d9007199254740993''] \<and>
   parseInt ''9007199254740993'' = 9007199254740992 \<and>
   (\<exists>cnt sd sel. ''+1d9007199254740993'' = CHR ''+'' # cnt @ CHR ''d'' # sd @ sel \<and>
      list_all is_digit cnt \<and> digits sd \<and>
      (sel = [] \<or> (\<exists>kd ns. sel = kd @ ns \<and> is_kd kd \<and> digits ns)) \<and>
      9007199254740992 = parseInt sd)"
proof -
  let ?t = "\<lparr>count = 1, sides = 9007199254740992, keep = None, drop_t = None\<rparr>"
  let ?e = "\<lparr>terms = [Dice ?t], advantage = False, disadvantage = False\<rparr>"
  have r: "runs ''1d9007199254740993'' = [''+1d9007199254740993'']" by code_simp
  have "double_of_int (decimal ''9007199254740993'') = 9007199254740992" by code_simp
  then have big: "parseInt ''9007199254740993'' = 9007199254740992"
    by (simp add: parseInt_def)
  have k: "0 < length (terms ?e) \<and> terms ?e ! 0 = Dice ?t" by simp
  from parsed_terms_invariant [OF parse_rounded_sides] k
  have "\<exists>cnt sd sel. runs ''1d9007199254740993'' ! 0 = CHR ''+'' # cnt @ CHR ''d'' # sd @ sel \<and>
           list_all is_digit cnt \<and> digits sd \<and>
           (sel = [] \<or> (\<exists>kd ns. sel = kd @ ns \<and> is_kd kd \<and> digits ns)) \<and>
           sides ?t = parseInt sd"
    by blast
  then have "\<exists>cnt sd sel. ''+1d9007199254740993'' = CHR ''+'' # cnt @ CHR ''d'' # sd @ sel \<and>
      list_all is_digit cnt \<and> digits sd \<and>
      (sel = [] \<or> (\<exists>kd ns. sel = kd @ ns \<and> is_kd kd \<and> digits ns)) \<and>
      9007199254740992 = parseInt sd"
    unfolding r by simp
  with parse_rounded_sides r big show ?thesis by blast
qed

text \<open>
  Claim C6 as stated fails on \<open>sides \<ge> 1\<close>: \<open>1d0\<close> parses, to a term with \<open>sides = 0\<close>.
\<close>

theorem zero_sides_counterexample:
  "parseNotation ''1d0'' =
     Inr \<lparr>terms = [Dice \<lparr>count = 1, sides = 0, keep = None, drop_t = None\<rparr>],
          advantage = False, disadvantage = False\<rparr> \<and>
   \<not> 1 \<le> sides \<lparr>count = 1, sides = 0, keep = None, drop_t = None\<rparr>"
proof -
  have "parseNotation ''1d0'' =
     Inr \<lparr>terms = [Dice \<lparr>count = 1, sides = 0, keep = None, drop_t = None\<rparr>],
          advantage = False, disadvantage = False\<rparr>"
    by code_simp
  then show ?thesis by simp
qed

subsection \<open>Notations without terms\<close>

lemma strip_flags_Nil [simp]: "strip_flags [] adv dis = ([], adv, dis)"
  by (simp add: strip_flags.simps)

lemma strip_flags_snoc:
  "strip_flags (ts @ [t]) adv dis =
     (if is_adv t then strip_flags ts True dis
      else if is_dis t then strip_flags ts adv True
      else (ts @ [t], adv, dis))"
  by (subst strip_flags.simps) simp

lemma strip_flags_all_flags:
  "\<forall>t\<in>set ts. is_adv t \<or> is_dis t \<Longrightarrow> fst (strip_flags ts adv dis) = []"
  by (induction ts arbitrary: adv dis rule: rev_induct) (auto simp: strip_flags_snoc)

lemma strip_flags_empty_token: "strip_flags [''''] adv dis = ([''''], adv, dis)"
  using strip_flags_snoc [of "[]" "''''" adv dis] by (simp add: is_adv_def is_dis_def)

lemma dropWhile_all: "list_all P s \<Longrightarrow> dropWhile P s = []"
  by (induction s) auto

lemma tokenize_blank: "list_all is_ws s \<Longrightarrow> tokenize s = ['''']"
  by (simp add: tokenize_def trim_def toLowerCase_def dropWhile_all)

lemma parts_of_Nil: "parts_of [] = [''+'']" "parts_of [''''] = [''+'']"
  by (simp_all add: parts_of_def)

lemma parse_part_plus: "parse_part ''+'' = Inl (InvalidDicePart ''+'')"
  by (simp add: parse_part_def is_sign_def match_body_def)

text \<open>
  Claim C9. A notation that is empty or blank, or whose tokens are all advantage or
  disadvantage words, does not parse to an empty term list: the run \<open>+\<close> that
  \<open>replace\<close> leaves matches no term, and \<open>parseNotation\<close> throws
  \<open>Invalid dice part: +\<close>.
\<close>

theorem no_terms_is_error:
  assumes "list_all is_ws notation \<or> (\<forall>t\<in>set (tokenize notation). is_adv t \<or> is_dis t)"
  shows "parseNotation notation = Inl (InvalidDicePart ''+'')"
proof -
  have "runs notation = [''+'']"
    using assms
  proof
    assume "list_all is_ws notation"
    then show ?thesis
      by (simp add: runs_def tokenize_blank strip_flags_empty_token parts_of_Nil)
  next
    assume "\<forall>t\<in>set (tokenize notation). is_adv t \<or> is_dis t"
    then show ?thesis
      by (simp add: runs_def strip_flags_all_flags parts_of_Nil)
  qed
  then show ?thesis
    by (simp add: parseNotation_runs parse_part_plus)
qed

theorem no_terms_is_error_witness:
  "tokenize ''adv  Dis'' = [''adv'', ''dis''] \<and> is_adv ''adv'' \<and> is_dis ''dis'' \<and>
   parseNotation ''adv  Dis'' = Inl (InvalidDicePart ''+'') \<and>
   parseNotation '''' = Inl (InvalidDicePart ''+'')"
proof -
  have t: "tokenize ''adv  Dis'' = [''adv'', ''dis'']" by code_simp
  have a: "\<forall>t\<in>set (tokenize ''adv  Dis''). is_adv t \<or> is_dis t"
    unfolding t by (simp add: is_adv_def is_dis_def)
  show ?thesis
    using t a no_terms_is_error [of "''adv  Dis''"] no_terms_is_error [of "''''"]
    by (simp add: is_adv_def is_dis_def)
qed

subsection \<open>Drawing\<close>

lemma draw_rolls_length: "length (fst (draw_rolls k sd g)) = k"
  by (induction k arbitrary: g) (simp_all add: split_beta)

lemma draw_rolls_tape: "snd (draw_rolls k sd g) = (\<lambda>i. g (i + k))"
  by (induction k arbitrary: g) (simp_all add: split_beta rollOnce_def)

lemma draw_rolls_nth:
  "j < k \<Longrightarrow> dvalue (fst (draw_rolls k sd g) ! j) = 1 + \<lfloor>g j * real sd\<rfloor>"
proof (induction k arbitrary: g j)
  case 0
  then show ?case by simp
next
  case (Suc k)
  show ?case
  proof (cases j)
    case 0
    then show ?thesis by (simp add: split_beta rollOnce_def)
  next
    case (Suc j')
    with Suc.prems have "j' < k" by simp
    from Suc.IH [OF this, of "\<lambda>i. g (Suc i)"] Suc show ?thesis
      by (simp add: split_beta rollOnce_def)
  qed
qed

subsection \<open>The sort\<close>

lemma set_insort_cmp [simp]: "set (insort_cmp cmp x ys) = insert x (set ys)"
  by (induction ys) auto

lemma length_insort_cmp [simp]: "length (insort_cmp cmp x ys) = Suc (length ys)"
  by (induction ys) auto

lemma distinct_insort_cmp: "distinct (insort_cmp cmp x ys) = (x \<notin> set ys \<and> distinct ys)"
  by (induction ys) auto

lemma set_sort_cmp [simp]: "set (sort_cmp cmp xs) = set xs"
  by (induction xs) (simp_all add: sort_cmp_def)

lemma length_sort_cmp [simp]: "length (sort_cmp cmp xs) = length xs"
  by (induction xs) (simp_all add: sort_cmp_def)

lemma distinct_sort_cmp [simp]: "distinct (sort_cmp cmp xs) = distinct xs"
proof (induction xs)
  case Nil
  then show ?case by (simp add: sort_cmp_def)
next
  case (Cons x xs)
  have "sort_cmp cmp (x # xs) = insort_cmp cmp x (sort_cmp cmp xs)"
    by (simp add: sort_cmp_def)
  with Cons show ?case by (simp add: distinct_insort_cmp)
qed

lemma ranks_before_trans_le:
  "dvalue (rs ! y) \<le> dvalue (rs ! x) \<Longrightarrow> x < z \<Longrightarrow> ranks_before rs y z \<Longrightarrow> ranks_before rs x z"
  by (auto simp: ranks_before_def)

lemma insort_ranked:
  assumes "sorted_wrt (ranks_before rs) ys" "\<forall>y\<in>set ys. x < y"
  shows "sorted_wrt (ranks_before rs)
           (insort_cmp (\<lambda>a b. dvalue (rs ! b) - dvalue (rs ! a)) x ys)"
  using assms
proof (induction ys)
  case Nil
  then show ?case by simp
next
  case (Cons y ys)
  show ?case
  proof (cases "dvalue (rs ! y) \<le> dvalue (rs ! x)")
    case True
    have "ranks_before rs x y" using True Cons.prems(2) by (auto simp: ranks_before_def)
    moreover have "\<forall>z\<in>set ys. ranks_before rs x z"
      using True Cons.prems by (auto intro: ranks_before_trans_le)
    ultimately show ?thesis using True Cons.prems(1) by simp
  next
    case False
    then have "ranks_before rs y x" by (simp add: ranks_before_def)
    moreover have "sorted_wrt (ranks_before rs)
       (insort_cmp (\<lambda>a b. dvalue (rs ! b) - dvalue (rs ! a)) x ys)"
      using Cons by simp
    ultimately show ?thesis using False Cons.prems(1) by auto
  qed
qed

lemma sort_ranked:
  "sorted_wrt (<) xs \<Longrightarrow>
   sorted_wrt (ranks_before rs) (sort_cmp (\<lambda>a b. dvalue (rs ! b) - dvalue (rs ! a)) xs)"
proof (induction xs)
  case Nil
  then show ?case by (simp add: sort_cmp_def)
next
  case (Cons x xs)
  have step: "sort_cmp (\<lambda>a b. dvalue (rs ! b) - dvalue (rs ! a)) (x # xs) =
      insort_cmp (\<lambda>a b. dvalue (rs ! b) - dvalue (rs ! a)) x
        (sort_cmp (\<lambda>a b. dvalue (rs ! b) - dvalue (rs ! a)) xs)"
    by (simp add: sort_cmp_def)
  show ?case unfolding step
    using Cons by (intro insort_ranked) simp_all
qed

lemma sortedIdx_set [simp]: "set (sortedIdx rs) = {..<length rs}"
  by (auto simp: sortedIdx_def)

lemma sortedIdx_length [simp]: "length (sortedIdx rs) = length rs"
  by (simp add: sortedIdx_def)

lemma sortedIdx_distinct [simp]: "distinct (sortedIdx rs)"
  by (simp add: sortedIdx_def)

lemma sortedIdx_ranked: "sorted_wrt (ranks_before rs) (sortedIdx rs)"
  unfolding sortedIdx_def by (intro sort_ranked) (simp add: sorted_wrt_upt)



subsection \<open>The indices \<open>rollTerm\<close> uses\<close>

lemma sum_used_in_range:
  "\<forall>i\<in>set is. i < length rs \<Longrightarrow>
   sum_used rs acc is = Inr (foldl double_add acc (map (\<lambda>i. dvalue (rs ! i)) is))"
  by (induction "is" arbitrary: acc) (simp_all add: value_at_def)

lemma array_from_range_error: "2 ^ 32 \<le> len \<Longrightarrow> array_from len sd g = Inl RangeError"
  by (simp add: array_from_def)

lemma array_from_small: "len < 2 ^ 32 \<Longrightarrow> array_from len sd g = Inr (draw_rolls len sd g)"
  by (simp add: array_from_def)

lemma slice_last_subset: "set (slice_last n xs) \<subseteq> set xs"
  by (auto simp: slice_last_def dest: in_set_dropD)

lemma slice_first_subset: "set (slice_first n xs) \<subseteq> set xs"
  by (auto simp: slice_first_def dest: in_set_takeD)

lemma select_keep_range:
  "set indices \<subseteq> {..<length rs} \<Longrightarrow> set (select_keep k rs indices) \<subseteq> {..<length rs}"
  using slice_first_subset [of _ "sortedIdx rs"] slice_last_subset [of _ "sortedIdx rs"]
  by (auto simp: select_keep_def split: option.splits)

lemma select_drop_subset: "set (select_drop d rs indices) \<subseteq> set indices"
  by (auto simp: select_drop_def Let_def split: option.splits)

lemma used_of_range: "set (used_of t rs) \<subseteq> {..<length rs}"
proof -
  have "set (select_keep (keep t) rs [0..<length rs]) \<subseteq> {..<length rs}"
    by (intro select_keep_range) auto
  with select_drop_subset show ?thesis unfolding used_of_def by blast
qed

lemma rollTerm_range_error: "2 ^ 32 \<le> count t \<Longrightarrow> rollTerm t g = Inl RangeError"
  by (simp add: rollTerm_def array_from_range_error)

lemma rollTerm_result:
  assumes "count t < 2 ^ 32"
  shows "rollTerm t g =
     Inr (\<lparr>rolls = fst (draw_rolls (count t) (sides t) g),
           used = used_of t (fst (draw_rolls (count t) (sides t) g)),
           subtotal = double_sum (map (\<lambda>i. dvalue (fst (draw_rolls (count t) (sides t) g) ! i))
                        (used_of t (fst (draw_rolls (count t) (sides t) g))))\<rparr>,
          \<lambda>i. g (i + count t))"
proof -
  obtain rs g1 where d: "draw_rolls (count t) (sides t) g = (rs, g1)"
    by (cases "draw_rolls (count t) (sides t) g")
  have g1: "g1 = (\<lambda>i. g (i + count t))"
    using draw_rolls_tape [of "count t" "sides t" g] d by simp
  have "\<forall>i\<in>set (used_of t rs). i < length rs"
    using used_of_range [of t rs] by auto
  from sum_used_in_range [OF this, of 0] show ?thesis
    by (simp add: rollTerm_def array_from_small [OF assms] d g1 used_of_def Let_def
        double_sum_def)
qed

lemma rollTerm_Inl_iff: "rollTerm t g = Inl e \<longleftrightarrow> e = RangeError \<and> 2 ^ 32 \<le> count t"
proof (cases "count t < 2 ^ 32")
  case True
  then show ?thesis by (simp add: rollTerm_result)
next
  case False
  then have "2 ^ 32 \<le> count t" by simp
  then show ?thesis by (auto simp: rollTerm_range_error)
qed

lemma rollTerm_InrD:
  assumes "rollTerm t g = Inr (r, g')"
  shows "rolls r = fst (draw_rolls (count t) (sides t) g)"
    and "used r = used_of t (rolls r)"
    and "subtotal r = double_sum (map (\<lambda>i. dvalue (rolls r ! i)) (used r))"
    and "g' = (\<lambda>i. g (i + count t))"
    and "length (rolls r) = count t"
    and "count t < 2 ^ 32"
proof -
  show c: "count t < 2 ^ 32"
  proof (rule ccontr)
    assume "\<not> count t < 2 ^ 32"
    then have "rollTerm t g = Inl RangeError" by (simp add: rollTerm_range_error)
    with assms show False by simp
  qed
  from assms show "rolls r = fst (draw_rolls (count t) (sides t) g)"
    and "used r = used_of t (rolls r)"
    and "subtotal r = double_sum (map (\<lambda>i. dvalue (rolls r ! i)) (used r))"
    and "g' = (\<lambda>i. g (i + count t))"
    and "length (rolls r) = count t"
    unfolding rollTerm_result [OF c] by (auto simp: draw_rolls_length)
qed




text \<open>
  With \<open>n = 0\<close>, which the guard \<open>if (kd && n)\<close> of the parser keeps out of every term,
  \<open>slice(-0)\<close> is the whole ranking: \<open>kl\<close> would keep every die and \<open>dl\<close> drop every die.
\<close>

lemma slice_last_zero: "slice_last 0 xs = xs"
  by (simp add: slice_last_def)

lemma used_of_lowest_zero:
  "keep t = Some (kl, 0) \<Longrightarrow> drop_t t = None \<Longrightarrow> set (used_of t rs) = {..<length rs}"
  "drop_t t = Some (dl, 0) \<Longrightarrow> used_of t rs = []"
proof -
  assume "keep t = Some (kl, 0)" "drop_t t = None"
  then show "set (used_of t rs) = {..<length rs}"
    by (simp add: used_of_def select_keep_def select_drop_def slice_last_zero)
next
  assume d: "drop_t t = Some (dl, 0)"
  have "set (select_keep (keep t) rs [0..<length rs]) \<subseteq> {..<length rs}"
    by (intro select_keep_range) auto
  then have "\<forall>i\<in>set (select_keep (keep t) rs [0..<length rs]). i \<in> set (sortedIdx rs)"
    by auto
  with d show "used_of t rs = []"
    by (simp add: used_of_def select_drop_def slice_last_zero filter_empty_conv)
qed

subsection \<open>The ranking\<close>

lemma sortedIdx_nth_ranked:
  "p < q \<Longrightarrow> q < length rs \<Longrightarrow> ranks_before rs (sortedIdx rs ! p) (sortedIdx rs ! q)"
  using sortedIdx_ranked [of rs] by (simp add: sorted_wrt_iff_nth_less)

lemma sortedIdx_take_drop_ranked:
  assumes "i \<in> set (take n (sortedIdx rs))" "j \<in> set (List.drop n (sortedIdx rs))"
  shows "ranks_before rs i j"
proof -
  have "sorted_wrt (ranks_before rs) (take n (sortedIdx rs) @ List.drop n (sortedIdx rs))"
    using sortedIdx_ranked [of rs] by simp
  with assms show ?thesis unfolding sorted_wrt_append by blast
qed

lemma not_taken_dropped:
  assumes "j < length rs" "j \<notin> set (take n (sortedIdx rs))"
  shows "j \<in> set (List.drop n (sortedIdx rs))"
proof -
  have "j \<in> set (take n (sortedIdx rs) @ List.drop n (sortedIdx rs))"
    using assms(1) by simp
  with assms(2) show ?thesis unfolding set_append by blast
qed

lemma resolve_term_general:
  assumes "\<not> (count t = 1 \<and> sides t = 20 \<and> (adv \<or> dis) \<and> keep t = None \<and> drop_t t = None)"
  shows "resolve_term adv dis (Dice t) g =
     (if 2 ^ 32 \<le> count t then Inl RangeError
      else
        (let rs = fst (draw_rolls (count t) (sides t) g);
             st = double_sum (map (\<lambda>i. dvalue (rs ! i)) (used_of t rs))
         in Inr (st,
                 DiceDetail (sides t) (count t) (keep t) (drop_t t) (map dvalue rs)
                   (used_of t rs) st,
                 \<lambda>i. g (i + count t))))"
proof -
  have r: "resolve_term adv dis (Dice t) g =
     (case rollTerm t g of
        Inl e \<Rightarrow> Inl e
      | Inr (r, g1) \<Rightarrow>
          Inr (subtotal r,
               DiceDetail (sides t) (count t) (keep t) (drop_t t)
                 (map dvalue (rolls r)) (used r) (subtotal r),
               g1))"
    by (simp only: resolve_term_def expr_term.case if_not_P [OF assms])
  show ?thesis
  proof (cases "count t < 2 ^ 32")
    case True
    then have "\<not> 2 ^ 32 \<le> count t" by simp
    then show ?thesis
      unfolding r rollTerm_result [OF True] by (simp add: Let_def)
  next
    case False
    then have big: "2 ^ 32 \<le> count t" by simp
    then show ?thesis
      unfolding r rollTerm_range_error [OF big] by simp
  qed
qed

lemma used_of_kh: "keep t = Some (kh, n) \<Longrightarrow> drop_t t = None \<Longrightarrow> used_of t rs = take n (sortedIdx rs)"
  by (simp add: used_of_def select_keep_def select_drop_def slice_first_def)

text \<open>
  Claim C2. The ranking \<open>sortedIdx\<close> holds every index once, higher values first and
  equal values in ascending draw position. For \<open>4d6kh3\<close>, four dice are drawn and three
  indices used, each of them ranking before the one left out.
\<close>

theorem ranking_stable_descending:
  "distinct (sortedIdx rs) \<and> set (sortedIdx rs) = {..<length rs} \<and>
   (\<forall>p q. p < q \<and> q < length rs \<longrightarrow>
      dvalue (rs ! (sortedIdx rs ! q)) < dvalue (rs ! (sortedIdx rs ! p)) \<or>
      (dvalue (rs ! (sortedIdx rs ! p)) = dvalue (rs ! (sortedIdx rs ! q)) \<and>
       sortedIdx rs ! p < sortedIdx rs ! q)) \<and>
   (\<exists>vs us. roll_dice ''4d6kh3'' g =
        Inr (double_add 0 (double_sum (map (\<lambda>i. vs ! i) us)),
             [DiceDetail 6 4 (Some (kh, 3)) None vs us (double_sum (map (\<lambda>i. vs ! i) us))],
             \<lambda>i. g (i + 4)) \<and>
      length vs = 4 \<and> length us = 3 \<and> distinct us \<and> set us \<subseteq> {..<4} \<and>
      (\<forall>i\<in>set us. \<forall>j<4. j \<notin> set us \<longrightarrow>
         vs ! j < vs ! i \<or> (vs ! i = vs ! j \<and> i < j)))"
proof -
  have rk: "\<forall>p q. p < q \<and> q < length rs \<longrightarrow>
      dvalue (rs ! (sortedIdx rs ! q)) < dvalue (rs ! (sortedIdx rs ! p)) \<or>
      (dvalue (rs ! (sortedIdx rs ! p)) = dvalue (rs ! (sortedIdx rs ! q)) \<and>
       sortedIdx rs ! p < sortedIdx rs ! q)"
    using sortedIdx_nth_ranked [of _ _ rs] by (simp add: ranks_before_def)
  let ?t = "\<lparr>count = 4, sides = 6, keep = Some (kh, 3), drop_t = None\<rparr>"
  define ds where "ds = fst (draw_rolls 4 6 g)"
  define vs where "vs = map dvalue ds"
  define us where "us = take 3 (sortedIdx ds)"
  have len: "length ds = 4" by (simp add: ds_def draw_rolls_length)
  have p: "parseNotation ''4d6kh3'' =
      Inr \<lparr>terms = [Dice ?t], advantage = False, disadvantage = False\<rparr>"
    by code_simp
  have uo: "used_of ?t ds = us" by (simp add: used_of_kh us_def)
  have us_lt: "\<forall>i\<in>set us. i < 4"
    using len by (auto simp: us_def dest!: in_set_takeD)
  have "map (\<lambda>i. dvalue (ds ! i)) us = map (\<lambda>i. vs ! i) us"
    using us_lt len by (intro map_cong) (simp_all add: vs_def)
  then have sums: "double_sum (map (\<lambda>i. dvalue (ds ! i)) us) = double_sum (map (\<lambda>i. vs ! i) us)"
    by (rule arg_cong)
  have gen: "resolve_term False False (Dice ?t) g =
      Inr (double_sum (map (\<lambda>i. vs ! i) us),
           DiceDetail 6 4 (Some (kh, 3)) None vs us (double_sum (map (\<lambda>i. vs ! i) us)),
           \<lambda>i. g (i + 4))"
    by (subst resolve_term_general)
      (simp_all add: Let_def ds_def [symmetric] uo sums vs_def [symmetric])
  have rd: "roll_dice ''4d6kh3'' g =
        Inr (double_add 0 (double_sum (map (\<lambda>i. vs ! i) us)),
             [DiceDetail 6 4 (Some (kh, 3)) None vs us (double_sum (map (\<lambda>i. vs ! i) us))],
             \<lambda>i. g (i + 4))"
    by (simp add: roll_dice_def p resolve_def gen)
  have l: "length vs = 4" "length us = 3" "distinct us" "set us \<subseteq> {..<4}"
    using len us_lt by (auto simp: vs_def us_def)
  have order: "\<forall>i\<in>set us. \<forall>j<4. j \<notin> set us \<longrightarrow>
         vs ! j < vs ! i \<or> (vs ! i = vs ! j \<and> i < j)"
  proof (intro ballI allI impI)
    fix i j assume i: "i \<in> set us" and j: "j < 4" "j \<notin> set us"
    have "j \<in> set (List.drop 3 (sortedIdx ds))"
      using not_taken_dropped [of j ds 3] j len by (simp add: us_def)
    with i have "ranks_before ds i j"
      unfolding us_def by (intro sortedIdx_take_drop_ranked)
    moreover have "i < 4" using i us_lt by blast
    ultimately show "vs ! j < vs ! i \<or> (vs ! i = vs ! j \<and> i < j)"
      using j len by (simp add: ranks_before_def vs_def)
  qed
  from rd l order have "\<exists>vs us. roll_dice ''4d6kh3'' g =
        Inr (double_add 0 (double_sum (map (\<lambda>i. vs ! i) us)),
             [DiceDetail 6 4 (Some (kh, 3)) None vs us (double_sum (map (\<lambda>i. vs ! i) us))],
             \<lambda>i. g (i + 4)) \<and>
      length vs = 4 \<and> length us = 3 \<and> distinct us \<and> set us \<subseteq> {..<4} \<and>
      (\<forall>i\<in>set us. \<forall>j<4. j \<notin> set us \<longrightarrow>
         vs ! j < vs ! i \<or> (vs ! i = vs ! j \<and> i < j))"
    by blast
  with rk show ?thesis by simp
qed

theorem ranking_stable_descending_witness:
  "sortedIdx [\<lparr>dvalue = 4\<rparr>, \<lparr>dvalue = 6\<rparr>, \<lparr>dvalue = 4\<rparr>, \<lparr>dvalue = 1\<rparr>] = [1, 0, 2, 3] \<and>
   distinct (sortedIdx [\<lparr>dvalue = 4\<rparr>, \<lparr>dvalue = 6\<rparr>, \<lparr>dvalue = 4\<rparr>, \<lparr>dvalue = 1\<rparr>]) \<and>
   (\<exists>vs us. roll_dice ''4d6kh3'' (tape_of [1/2, 5/6, 1/2, 0]) =
        Inr (double_add 0 (double_sum (map (\<lambda>i. vs ! i) us)),
             [DiceDetail 6 4 (Some (kh, 3)) None vs us (double_sum (map (\<lambda>i. vs ! i) us))],
             \<lambda>i. tape_of [1/2, 5/6, 1/2, 0] (i + 4)) \<and>
      length vs = 4 \<and> length us = 3) \<and>
   outcome (roll_dice ''4d6kh3'' (tape_of [1/2, 5/6, 1/2, 0])) =
     Inr (14, [DiceDetail 6 4 (Some (kh, 3)) None [4, 6, 4, 1] [1, 0, 2] 14])"
proof -
  have a: "sortedIdx [\<lparr>dvalue = 4\<rparr>, \<lparr>dvalue = 6\<rparr>, \<lparr>dvalue = 4\<rparr>, \<lparr>dvalue = 1\<rparr>] = [1, 0, 2, 3]"
    by code_simp
  have b: "outcome (roll_dice ''4d6kh3'' (tape_of [1/2, 5/6, 1/2, 0])) =
     Inr (14, [DiceDetail 6 4 (Some (kh, 3)) None [4, 6, 4, 1] [1, 0, 2] 14])"
    by code_simp
  show ?thesis
    using a b
      ranking_stable_descending [of "[\<lparr>dvalue = 4\<rparr>, \<lparr>dvalue = 6\<rparr>, \<lparr>dvalue = 4\<rparr>, \<lparr>dvalue = 1\<rparr>]"
        "tape_of [1/2, 5/6, 1/2, 0]"]
    by blast
qed

subsection \<open>Clamping, and the one error of resolution\<close>

lemma slice_first_all: "length xs \<le> n \<Longrightarrow> slice_first n xs = xs"
  by (simp add: slice_first_def)

lemma slice_last_all: "length xs \<le> n \<Longrightarrow> slice_last n xs = xs"
  by (simp add: slice_last_def)

lemma used_of_keep_all:
  assumes "keep t = Some (k, n)" "drop_t t = None" "length rs \<le> n"
  shows "distinct (used_of t rs) \<and> set (used_of t rs) = {..<length rs}"
  using assms
  by (cases k)
    (simp_all add: used_of_def select_keep_def select_drop_def slice_first_all slice_last_all)

lemma used_of_drop_all:
  assumes "drop_t t = Some (k, n)" "length rs \<le> n"
  shows "used_of t rs = []"
proof -
  have "set (select_keep (keep t) rs [0..<length rs]) \<subseteq> {..<length rs}"
    by (intro select_keep_range) auto
  then have "\<forall>i\<in>set (select_keep (keep t) rs [0..<length rs]). i \<in> set (sortedIdx rs)"
    by auto
  then show ?thesis
    using assms
    by (cases k)
      (simp_all add: used_of_def select_drop_def slice_first_all slice_last_all filter_empty_conv)
qed

lemma rollOnce_fst: "fst (rollOnce sd g) = 1 + \<lfloor>g 0 * real sd\<rfloor>"
  by (simp add: rollOnce_def)

lemma resolve_term_special:
  assumes "count t = 1 \<and> sides t = 20 \<and> (adv \<or> dis) \<and> keep t = None \<and> drop_t t = None"
  shows "resolve_term adv dis (Dice t) g =
     (let base = fst (rollOnce 20 g);
          a = fst (rollOnce 20 (\<lambda>i. g (i + 1)));
          b = fst (rollOnce 20 (\<lambda>i. g (i + 2)));
          final = (if adv then max a b else min a b)
      in Inr (final, D20Detail base (Some (if adv then AdvDetail a b else DisDetail a b)) final,
              \<lambda>i. g (i + 3)))"
proof -
  have "resolve_term adv dis (Dice t) g =
     (case rollOnce 20 g of (base, g1) \<Rightarrow>
        (case applyAdvantage base 20 adv dis g1 of ((v, d), g2) \<Rightarrow>
           Inr (v, D20Detail base d v, g2)))"
    by (simp only: resolve_term_def expr_term.case if_P [OF assms])
  moreover have "adv \<or> dis" using assms by simp
  ultimately show ?thesis
    by (auto simp: applyAdvantage_def rollOnce_def Let_def numeral_3_eq_3 numeral_2_eq_2)
qed

lemma resolve_term_Inl_iff:
  "resolve_term adv dis et g = Inl e \<longleftrightarrow>
     e = RangeError \<and> (\<exists>t. et = Dice t \<and> 2 ^ 32 \<le> count t)"
proof (cases et)
  case (Modifier m)
  then show ?thesis by (simp add: resolve_term_def)
next
  case (Dice t)
  show ?thesis
  proof (cases "count t = 1 \<and> sides t = 20 \<and> (adv \<or> dis) \<and> keep t = None \<and> drop_t t = None")
    case True
    then have "\<not> 2 ^ 32 \<le> count t" by simp
    then show ?thesis
      unfolding Dice resolve_term_special [OF True] by (simp add: Let_def)
  next
    case False
    show ?thesis
      unfolding Dice resolve_term_general [OF False] by (auto simp: Let_def)
  qed
qed

lemma resolve_terms_Inl:
  "resolve_terms adv dis ets tot details g = Inl e \<Longrightarrow>
   e = RangeError \<and> (\<exists>t. Dice t \<in> set ets \<and> 2 ^ 32 \<le> count t)"
proof (induction ets arbitrary: tot details g)
  case Nil
  then show ?case by simp
next
  case (Cons et ets)
  show ?case
  proof (cases "resolve_term adv dis et g")
    case (Inl e')
    with Cons.prems have "e' = e" by simp
    with Inl show ?thesis unfolding resolve_term_Inl_iff by auto
  next
    case (Inr res)
    obtain v d g1 where "res = (v, d, g1)" by (cases res)
    with Inr Cons.prems
    have "resolve_terms adv dis ets (double_add tot v) (details @ [d]) g1 = Inl e" by simp
    from Cons.IH [OF this] show ?thesis by auto
  qed
qed

lemma resolve_terms_total:
  "\<forall>t. Dice t \<in> set ets \<longrightarrow> count t < 2 ^ 32 \<Longrightarrow>
   \<exists>res. resolve_terms adv dis ets tot details g = Inr res"
proof (cases "resolve_terms adv dis ets tot details g")
  case (Inl e)
  assume small: "\<forall>t. Dice t \<in> set ets \<longrightarrow> count t < 2 ^ 32"
  from resolve_terms_Inl [OF Inl] obtain t where "Dice t \<in> set ets" "2 ^ 32 \<le> count t"
    by blast
  with small show ?thesis by force
next
  case (Inr res)
  then show ?thesis by blast
qed

text \<open>
  Claim C5, amended. \<open>rollTerm\<close> throws exactly when the count of the term is \<open>2 ^ 32\<close> or
  more, and then the RangeError of \<open>Array.from\<close>; resolution of an expression throws
  nothing else, and nothing when every count is below \<open>2 ^ 32\<close>. Below \<open>2 ^ 32\<close>,
  \<open>rollTerm\<close> returns, every index it reads is in range, a keep of \<open>n \<ge> count\<close> dice uses
  every die once and a drop of \<open>n \<ge> count\<close> dice uses none, with subtotal 0.
\<close>

theorem resolution_fails_on_array_length_only:
  "(rollTerm t g = Inl RangeError \<longleftrightarrow> 2 ^ 32 \<le> count t) \<and>
   (\<forall>err. rollTerm t g = Inl err \<longrightarrow> err = RangeError) \<and>
   (count t < 2 ^ 32 \<longrightarrow>
      (\<exists>r g'. rollTerm t g = Inr (r, g') \<and> length (rolls r) = count t \<and>
         set (used r) \<subseteq> {..<count t} \<and>
         (\<forall>k n. keep t = Some (k, n) \<and> drop_t t = None \<and> count t \<le> n \<longrightarrow>
            distinct (used r) \<and> set (used r) = {..<count t}) \<and>
         (\<forall>k n. drop_t t = Some (k, n) \<and> count t \<le> n \<longrightarrow> used r = [] \<and> subtotal r = 0))) \<and>
   ((\<forall>t. Dice t \<in> set (terms e) \<longrightarrow> count t < 2 ^ 32) \<longrightarrow> (\<exists>res. resolve e g = Inr res)) \<and>
   (\<forall>err. resolve e g = Inl err \<longrightarrow>
      err = RangeError \<and> (\<exists>t. Dice t \<in> set (terms e) \<and> 2 ^ 32 \<le> count t))"
proof -
  have a: "rollTerm t g = Inl RangeError \<longleftrightarrow> 2 ^ 32 \<le> count t"
    by (simp add: rollTerm_Inl_iff)
  have b: "\<forall>err. rollTerm t g = Inl err \<longrightarrow> err = RangeError"
    by (simp add: rollTerm_Inl_iff)
  have c: "count t < 2 ^ 32 \<longrightarrow>
      (\<exists>r g'. rollTerm t g = Inr (r, g') \<and> length (rolls r) = count t \<and>
         set (used r) \<subseteq> {..<count t} \<and>
         (\<forall>k n. keep t = Some (k, n) \<and> drop_t t = None \<and> count t \<le> n \<longrightarrow>
            distinct (used r) \<and> set (used r) = {..<count t}) \<and>
         (\<forall>k n. drop_t t = Some (k, n) \<and> count t \<le> n \<longrightarrow> used r = [] \<and> subtotal r = 0))"
  proof
    assume small: "count t < 2 ^ 32"
    obtain r g' where rt: "rollTerm t g = Inr (r, g')"
      using rollTerm_result [OF small, of g] by blast
    note d = rollTerm_InrD [OF rt]
    have len: "length (rolls r) = count t" by (rule d(5))
    have rng: "set (used r) \<subseteq> {..<count t}"
      using used_of_range [of t "rolls r"] d(2) len by simp
    have kp: "\<forall>k n. keep t = Some (k, n) \<and> drop_t t = None \<and> count t \<le> n \<longrightarrow>
           distinct (used r) \<and> set (used r) = {..<count t}"
      using used_of_keep_all [of t _ _ "rolls r"] d(2) len by auto
    have dp: "\<forall>k n. drop_t t = Some (k, n) \<and> count t \<le> n \<longrightarrow> used r = [] \<and> subtotal r = 0"
    proof (intro allI impI)
      fix k n assume "drop_t t = Some (k, n) \<and> count t \<le> n"
      then have "used r = []"
        using used_of_drop_all [of t k n "rolls r"] d(2) len by simp
      then show "used r = [] \<and> subtotal r = 0" using d(3) by simp
    qed
    from rt len rng kp dp
    show "\<exists>r g'. rollTerm t g = Inr (r, g') \<and> length (rolls r) = count t \<and>
         set (used r) \<subseteq> {..<count t} \<and>
         (\<forall>k n. keep t = Some (k, n) \<and> drop_t t = None \<and> count t \<le> n \<longrightarrow>
            distinct (used r) \<and> set (used r) = {..<count t}) \<and>
         (\<forall>k n. drop_t t = Some (k, n) \<and> count t \<le> n \<longrightarrow> used r = [] \<and> subtotal r = 0)"
      by blast
  qed
  have d: "(\<forall>t. Dice t \<in> set (terms e) \<longrightarrow> count t < 2 ^ 32) \<longrightarrow> (\<exists>res. resolve e g = Inr res)"
    unfolding resolve_def using resolve_terms_total by blast
  have f: "\<forall>err. resolve e g = Inl err \<longrightarrow>
      err = RangeError \<and> (\<exists>t. Dice t \<in> set (terms e) \<and> 2 ^ 32 \<le> count t)"
    unfolding resolve_def using resolve_terms_Inl by blast
  from a b c d f show ?thesis by blast
qed

theorem resolution_fails_on_array_length_only_witness:
  "(\<exists>res. resolve \<lparr>terms = [Dice \<lparr>count = 2, sides = 6, keep = None, drop_t = Some (dl, 5)\<rparr>],
                   advantage = False, disadvantage = False\<rparr> (tape_of [1/2, 5/6]) = Inr res) \<and>
   (\<exists>r g'. rollTerm \<lparr>count = 2, sides = 6, keep = None, drop_t = Some (dl, 5)\<rparr> (tape_of [1/2, 5/6])
       = Inr (r, g') \<and> used r = [] \<and> subtotal r = 0) \<and>
   outcome (resolve \<lparr>terms = [Dice \<lparr>count = 2, sides = 6, keep = None, drop_t = Some (dl, 5)\<rparr>],
                   advantage = False, disadvantage = False\<rparr> (tape_of [1/2, 5/6])) =
     Inr (0, [DiceDetail 6 2 None (Some (dl, 5)) [4, 6] [] 0])"
proof -
  have b: "outcome (resolve \<lparr>terms = [Dice \<lparr>count = 2, sides = 6, keep = None, drop_t = Some (dl, 5)\<rparr>],
                   advantage = False, disadvantage = False\<rparr> (tape_of [1/2, 5/6])) =
     Inr (0, [DiceDetail 6 2 None (Some (dl, 5)) [4, 6] [] 0])"
    by code_simp
  show ?thesis
    using b
      resolution_fails_on_array_length_only [of
        "\<lparr>count = 2, sides = 6, keep = None, drop_t = Some (dl, 5)\<rparr>" "tape_of [1/2, 5/6]"
        "\<lparr>terms = [Dice \<lparr>count = 2, sides = 6, keep = None, drop_t = Some (dl, 5)\<rparr>],
                   advantage = False, disadvantage = False\<rparr>"]
    by auto
qed

lemma parseInt_two_to_32: "parseInt ''4294967296'' = 4294967296"
proof -
  have "double_of_int (decimal ''4294967296'') = 4294967296" by code_simp
  then show ?thesis by (simp add: parseInt_def)
qed

lemma parse_huge_count:
  "parseNotation ''4294967296d6'' =
     Inr \<lparr>terms = [Dice \<lparr>count = 4294967296, sides = 6, keep = None, drop_t = None\<rparr>],
          advantage = False, disadvantage = False\<rparr>"
proof -
  have r: "runs ''4294967296d6'' = [''+4294967296d6'']" by code_simp
  have f: "adv_seen ''4294967296d6'' = False" "dis_seen ''4294967296d6'' = False"
    by code_simp+
  have six: "parseInt ''6'' = 6" by code_simp
  have "parse_part (CHR ''+'' # ''4294967296'' @ CHR ''d'' # ''6'') =
      Inr (Dice \<lparr>count = count_of ''4294967296'', sides = parseInt ''6'',
                 keep = None, drop_t = None\<rparr>)"
    by (rule parse_part_dice_plain) (simp_all add: is_digit_def)
  then have "parse_part ''+4294967296d6'' =
      Inr (Dice \<lparr>count = 4294967296, sides = 6, keep = None, drop_t = None\<rparr>)"
    by (simp add: count_of_def parseInt_two_to_32 six)
  then show ?thesis
    by (simp add: parseNotation_runs r f)
qed

lemma roll_huge_count: "roll_dice ''4294967296d6'' (tape_of []) = Inl RangeError"
proof -
  have "resolve_term False False
      (Dice \<lparr>count = 4294967296, sides = 6, keep = None, drop_t = None\<rparr>) (tape_of []) =
      Inl RangeError"
    by (subst resolve_term_general) simp_all
  then show ?thesis
    by (simp add: roll_dice_def parse_huge_count resolve_def)
qed

text \<open>
  Claim C5 as stated fails on a count of \<open>2 ^ 32\<close>: \<open>4294967296d6\<close> parses, and
  \<open>rollTerm\<close> throws the RangeError of \<open>Array.from\<close> on its term.
\<close>

theorem huge_count_counterexample:
  "parseNotation ''4294967296d6'' =
     Inr \<lparr>terms = [Dice \<lparr>count = 4294967296, sides = 6, keep = None, drop_t = None\<rparr>],
          advantage = False, disadvantage = False\<rparr> \<and>
   rollTerm \<lparr>count = 4294967296, sides = 6, keep = None, drop_t = None\<rparr> (tape_of []) =
     Inl RangeError \<and>
   roll_dice ''4294967296d6'' (tape_of []) = Inl RangeError"
proof -
  have rt: "rollTerm \<lparr>count = 4294967296, sides = 6, keep = None, drop_t = None\<rparr> (tape_of []) =
     Inl RangeError"
    by (rule rollTerm_range_error) simp
  from rt parse_huge_count roll_huge_count show ?thesis by simp
qed

subsection \<open>The handler\<close>

text \<open>
  Claim C3. A dice term takes the advantage/disadvantage path exactly when its count is 1,
  its sides are 20, it has no selector and a flag is set. Then three d20 are drawn: the
  base, recorded and not counted, and the pair \<open>a\<close>, \<open>b\<close>, of which the maximum counts
  under advantage and the minimum under disadvantage. Any other dice term goes through
  \<open>rollTerm\<close>, which throws when its count is \<open>2 ^ 32\<close> or more; \<open>1d6 adv\<close> is one draw
  of a d6, a number from 1 to 6 when the random number is in the range of
  \<open>Math.random()\<close>.
\<close>

theorem advantage_special_case:
  "resolve_term adv dis (Dice t) g =
     (if count t = 1 \<and> sides t = 20 \<and> keep t = None \<and> drop_t t = None \<and> (adv \<or> dis)
      then
        (let base = fst (rollOnce 20 g);
             a = fst (rollOnce 20 (\<lambda>i. g (i + 1)));
             b = fst (rollOnce 20 (\<lambda>i. g (i + 2)));
             final = (if adv then max a b else min a b)
         in Inr (final, D20Detail base (Some (if adv then AdvDetail a b else DisDetail a b)) final,
                 \<lambda>i. g (i + 3)))
      else if 2 ^ 32 \<le> count t then Inl RangeError
      else
        (let rs = fst (draw_rolls (count t) (sides t) g);
             st = double_sum (map (\<lambda>i. dvalue (rs ! i)) (used_of t rs))
         in Inr (st,
                 DiceDetail (sides t) (count t) (keep t) (drop_t t) (map dvalue rs)
                   (used_of t rs) st,
                 \<lambda>i. g (i + count t)))) \<and>
   (\<forall>v d g'. resolve_term adv dis (Dice t) g = Inr (v, d, g') \<longrightarrow>
      ((\<exists>base ad final. d = D20Detail base ad final) \<longleftrightarrow>
       count t = 1 \<and> sides t = 20 \<and> keep t = None \<and> drop_t t = None \<and> (adv \<or> dis))) \<and>
   roll_dice ''1d6 adv'' g =
     Inr (double_add 0 (double_sum [fst (rollOnce 6 g)]),
          [DiceDetail 6 1 None None [fst (rollOnce 6 g)] [0] (double_sum [fst (rollOnce 6 g)])],
          \<lambda>i. g (i + 1)) \<and>
   (0 \<le> g 0 \<and> g 0 < 1 \<longrightarrow>
      roll_dice ''1d6 adv'' g =
        Inr (fst (rollOnce 6 g),
             [DiceDetail 6 1 None None [fst (rollOnce 6 g)] [0] (fst (rollOnce 6 g))],
             \<lambda>i. g (i + 1)) \<and>
      1 \<le> fst (rollOnce 6 g) \<and> fst (rollOnce 6 g) \<le> 6)"
proof -
  let ?c = "count t = 1 \<and> sides t = 20 \<and> keep t = None \<and> drop_t t = None \<and> (adv \<or> dis)"
  have eq: "resolve_term adv dis (Dice t) g =
     (if ?c
      then
        (let base = fst (rollOnce 20 g);
             a = fst (rollOnce 20 (\<lambda>i. g (i + 1)));
             b = fst (rollOnce 20 (\<lambda>i. g (i + 2)));
             final = (if adv then max a b else min a b)
         in Inr (final, D20Detail base (Some (if adv then AdvDetail a b else DisDetail a b)) final,
                 \<lambda>i. g (i + 3)))
      else if 2 ^ 32 \<le> count t then Inl RangeError
      else
        (let rs = fst (draw_rolls (count t) (sides t) g);
             st = double_sum (map (\<lambda>i. dvalue (rs ! i)) (used_of t rs))
         in Inr (st,
                 DiceDetail (sides t) (count t) (keep t) (drop_t t) (map dvalue rs)
                   (used_of t rs) st,
                 \<lambda>i. g (i + count t))))"
  proof (cases ?c)
    case True
    then have c: "count t = 1 \<and> sides t = 20 \<and> (adv \<or> dis) \<and> keep t = None \<and> drop_t t = None"
      by blast
    show ?thesis by (subst if_P [OF True]) (rule resolve_term_special [OF c])
  next
    case False
    then have c: "\<not> (count t = 1 \<and> sides t = 20 \<and> (adv \<or> dis) \<and> keep t = None \<and> drop_t t = None)"
      by blast
    show ?thesis by (subst if_not_P [OF False]) (rule resolve_term_general [OF c])
  qed
  have iff: "\<forall>v d g'. resolve_term adv dis (Dice t) g = Inr (v, d, g') \<longrightarrow>
      ((\<exists>base ad final. d = D20Detail base ad final) \<longleftrightarrow> ?c)"
  proof (intro allI impI)
    fix v d g' assume r: "resolve_term adv dis (Dice t) g = Inr (v, d, g')"
    show "(\<exists>base ad final. d = D20Detail base ad final) \<longleftrightarrow> ?c"
    proof (cases ?c)
      case True
      from r have "\<exists>base ad final. d = D20Detail base ad final"
        unfolding eq if_P [OF True] Let_def by auto
      with True show ?thesis by blast
    next
      case False
      from r have "\<exists>sd c k dd vs us st. d = DiceDetail sd c k dd vs us st"
        unfolding eq if_not_P [OF False] Let_def by (auto split: if_splits)
      then have "\<not> (\<exists>base ad final. d = D20Detail base ad final)" by auto
      with False show ?thesis by blast
    qed
  qed
  let ?v = "fst (rollOnce 6 g)"
  have p: "parseNotation ''1d6 adv'' =
      Inr \<lparr>terms = [Dice \<lparr>count = 1, sides = 6, keep = None, drop_t = None\<rparr>],
           advantage = True, disadvantage = False\<rparr>"
    by code_simp
  have one: "keep t = None \<Longrightarrow> drop_t t = None \<Longrightarrow> used_of t rs = [0..<length rs]" for t rs
    by (simp add: used_of_def select_keep_def select_drop_def)
  have gen: "resolve_term True False
      (Dice \<lparr>count = 1, sides = 6, keep = None, drop_t = None\<rparr>) g =
      Inr (double_sum [?v], DiceDetail 6 1 None None [?v] [0] (double_sum [?v]), \<lambda>i. g (i + 1))"
    by (subst resolve_term_general) (simp_all add: one Let_def split_beta)
  have d6: "roll_dice ''1d6 adv'' g =
     Inr (double_add 0 (double_sum [?v]),
          [DiceDetail 6 1 None None [?v] [0] (double_sum [?v])],
          \<lambda>i. g (i + 1))"
    using gen by (simp add: roll_dice_def p resolve_def)
  have inrange: "0 \<le> g 0 \<and> g 0 < 1 \<longrightarrow>
      roll_dice ''1d6 adv'' g =
        Inr (?v, [DiceDetail 6 1 None None [?v] [0] ?v], \<lambda>i. g (i + 1)) \<and>
      1 \<le> ?v \<and> ?v \<le> 6"
  proof
    assume r: "0 \<le> g 0 \<and> g 0 < 1"
    then have "0 \<le> g 0 * 6" "g 0 * 6 < 6" by simp_all
    then have "0 \<le> \<lfloor>g 0 * 6\<rfloor>" "\<lfloor>g 0 * 6\<rfloor> < 6"
      by (simp_all add: floor_less_iff)
    then have v: "1 \<le> ?v" "?v \<le> 6" by (simp_all add: rollOnce_fst)
    then have "\<bar>0 + ?v\<bar> < 2 ^ 53" by simp
    then have s: "double_sum [?v] = ?v"
      by (simp add: double_sum_def double_add_small)
    have "double_add 0 ?v = ?v"
      using v by (intro double_add_small [of 0 ?v, simplified]) simp
    with d6 s v show "roll_dice ''1d6 adv'' g =
        Inr (?v, [DiceDetail 6 1 None None [?v] [0] ?v], \<lambda>i. g (i + 1)) \<and>
      1 \<le> ?v \<and> ?v \<le> 6"
      by simp
  qed
  from eq iff d6 inrange show ?thesis by blast
qed

theorem advantage_special_case_witness:
  "(\<exists>g'. resolve_term True False (Dice \<lparr>count = 1, sides = 20, keep = None, drop_t = None\<rparr>)
           (tape_of [1/2, 5/6, 1/2]) =
         Inr (17, D20Detail 11 (Some (AdvDetail 17 11)) 17, g')) \<and>
   outcome (roll_dice ''1d20+5 dis'' (tape_of [1/2, 5/6, 1/2])) =
     Inr (16, [D20Detail 11 (Some (DisDetail 17 11)) 11, ModifierDetail 5]) \<and>
   outcome (roll_dice ''1d6 adv'' (tape_of [1/2, 5/6, 1/2])) =
     Inr (4, [DiceDetail 6 1 None None [4] [0] 4])"
proof -
  have a: "outcome (roll_dice ''1d20+5 dis'' (tape_of [1/2, 5/6, 1/2])) =
     Inr (16, [D20Detail 11 (Some (DisDetail 17 11)) 11, ModifierDetail 5])"
    by code_simp
  have b: "outcome (roll_dice ''1d6 adv'' (tape_of [1/2, 5/6, 1/2])) =
     Inr (4, [DiceDetail 6 1 None None [4] [0] 4])"
    by code_simp
  have c: "\<exists>g'. resolve_term True False (Dice \<lparr>count = 1, sides = 20, keep = None, drop_t = None\<rparr>)
           (tape_of [1/2, 5/6, 1/2]) =
         Inr (17, D20Detail 11 (Some (AdvDetail 17 11)) 17, g')"
    using advantage_special_case [of True False
        "\<lparr>count = 1, sides = 20, keep = None, drop_t = None\<rparr>" "tape_of [1/2, 5/6, 1/2]"]
    by (simp add: rollOnce_def tape_of_def Let_def)
  from a b c show ?thesis by blast
qed

lemma resolve_term_detail:
  assumes "resolve_term adv dis et g = Inr (v, d, g1)"
  shows "v = contribution d \<and> detail_for et d \<and> subtotal_ok d"
proof (cases et)
  case (Modifier m)
  with assms show ?thesis by (auto simp: resolve_term_def)
next
  case (Dice t)
  let ?c = "count t = 1 \<and> sides t = 20 \<and> keep t = None \<and> drop_t t = None \<and> (adv \<or> dis)"
  show ?thesis
  proof (cases ?c)
    case True
    then have c: "count t = 1 \<and> sides t = 20 \<and> (adv \<or> dis) \<and> keep t = None \<and> drop_t t = None"
      by blast
    from assms show ?thesis
      unfolding Dice resolve_term_special [OF c] Let_def using True by auto
  next
    case False
    then have c: "\<not> (count t = 1 \<and> sides t = 20 \<and> (adv \<or> dis) \<and> keep t = None \<and> drop_t t = None)"
      by blast
    let ?rs = "fst (draw_rolls (count t) (sides t) g)"
    have in_range: "\<forall>i\<in>set (used_of t ?rs). i < length ?rs"
      using used_of_range [of t ?rs] by auto
    then have "map (\<lambda>i. dvalue (?rs ! i)) (used_of t ?rs) =
        map (\<lambda>i. map dvalue ?rs ! i) (used_of t ?rs)"
      by (intro map_cong) simp_all
    then have m: "double_sum (map (\<lambda>i. dvalue (?rs ! i)) (used_of t ?rs)) =
        double_sum (map (\<lambda>i. map dvalue ?rs ! i) (used_of t ?rs))"
      by (rule arg_cong)
    from assms have small: "\<not> 2 ^ 32 \<le> count t"
      unfolding Dice resolve_term_general [OF c] by (auto split: if_splits)
    from assms have
      "d = DiceDetail (sides t) (count t) (keep t) (drop_t t) (map dvalue ?rs) (used_of t ?rs)
             (double_sum (map (\<lambda>i. dvalue (?rs ! i)) (used_of t ?rs)))"
      "v = double_sum (map (\<lambda>i. dvalue (?rs ! i)) (used_of t ?rs))"
      unfolding Dice resolve_term_general [OF c] if_not_P [OF small] Let_def by auto
    with in_range m show ?thesis
      unfolding Dice
      by (simp add: draw_rolls_length list_all_iff double_sum_exact)
  qed
qed

lemma resolve_terms_details:
  "resolve_terms adv dis ets tot details g = Inr (tot', details', g') \<Longrightarrow>
   \<exists>new. details' = details @ new \<and> tot' = foldl double_add tot (map contribution new) \<and>
     list_all2 detail_for ets new \<and> list_all subtotal_ok new"
proof (induction ets arbitrary: tot details g)
  case Nil
  then show ?case by simp
next
  case (Cons et ets)
  from Cons.prems obtain v d g1 where
    st: "resolve_term adv dis et g = Inr (v, d, g1)" and
    rest: "resolve_terms adv dis ets (double_add tot v) (details @ [d]) g1 = Inr (tot', details', g')"
    by (auto split: sum.splits)
  from Cons.IH [OF rest] obtain new where new:
    "details' = (details @ [d]) @ new"
    "tot' = foldl double_add (double_add tot v) (map contribution new)"
    "list_all2 detail_for ets new" "list_all subtotal_ok new"
    by blast
  from resolve_term_detail [OF st] new
  have "details' = details @ (d # new) \<and>
     tot' = foldl double_add tot (map contribution (d # new)) \<and>
     list_all2 detail_for (et # ets) (d # new) \<and> list_all subtotal_ok (d # new)"
    by simp
  then show ?case by blast
qed

text \<open>
  Claim C4, amended. For a notation that parses, \<open>roll_dice\<close> throws the RangeError of a
  count of \<open>2 ^ 32\<close> or more, or returns a total and details such that the total is the sum
  of the contributions of the details (subtotal of a dice record, final value of a d20
  record, value of a modifier record) added from 0, left to right, in doubles; this is
  their exact sum when every sum of the first contributions is below \<open>2 ^ 53\<close> in
  magnitude. The subtotal of every dice record is, in the same way, the sum of its rolls
  at its used indices. The details are the records of the terms, one for each, in the
  order of the terms, which is the order of the runs of the notation. With every count
  below \<open>2 ^ 32\<close>, \<open>roll_dice\<close> returns.
\<close>

theorem total_is_double_sum_of_details:
  assumes "parseNotation s = Inr e"
  shows "((roll_dice s g = Inl RangeError \<and> (\<exists>t. Dice t \<in> set (terms e) \<and> 2 ^ 32 \<le> count t)) \<or>
      (\<exists>tot details g'. roll_dice s g = Inr (tot, details, g') \<and>
         tot = double_sum (map contribution details) \<and>
         (safe_sums (map contribution details) \<longrightarrow> tot = sum_list (map contribution details)) \<and>
         list_all subtotal_ok details \<and>
         list_all2 detail_for (terms e) details \<and>
         list_all2 (\<lambda>run t. parse_part run = Inr t) (runs s) (terms e))) \<and>
     ((\<forall>t. Dice t \<in> set (terms e) \<longrightarrow> count t < 2 ^ 32) \<longrightarrow> (\<exists>res. roll_dice s g = Inr res))"
proof -
  have rd: "roll_dice s g =
      resolve_terms (advantage e) (disadvantage e) (terms e) 0 [] g"
    using assms by (simp add: roll_dice_def resolve_def)
  have total: "(\<forall>t. Dice t \<in> set (terms e) \<longrightarrow> count t < 2 ^ 32) \<longrightarrow>
      (\<exists>res. roll_dice s g = Inr res)"
    unfolding rd using resolve_terms_total by blast
  have "(roll_dice s g = Inl RangeError \<and> (\<exists>t. Dice t \<in> set (terms e) \<and> 2 ^ 32 \<le> count t)) \<or>
      (\<exists>tot details g'. roll_dice s g = Inr (tot, details, g') \<and>
         tot = double_sum (map contribution details) \<and>
         (safe_sums (map contribution details) \<longrightarrow> tot = sum_list (map contribution details)) \<and>
         list_all subtotal_ok details \<and>
         list_all2 detail_for (terms e) details \<and>
         list_all2 (\<lambda>run t. parse_part run = Inr t) (runs s) (terms e))"
  proof (cases "roll_dice s g")
    case (Inl err)
    from resolve_terms_Inl [OF Inl [unfolded rd]] Inl show ?thesis by blast
  next
    case (Inr res)
    obtain tot details g' where res: "res = (tot, details, g')" by (cases res)
    from resolve_terms_details [OF Inr [unfolded rd res]]
    have t: "tot = double_sum (map contribution details)" and
      d: "list_all subtotal_ok details" "list_all2 detail_for (terms e) details"
      by (simp_all add: double_sum_def)
    from t have "safe_sums (map contribution details) \<longrightarrow>
        tot = sum_list (map contribution details)"
      by (simp add: double_sum_exact)
    with Inr res t d parseNotation_terms [OF assms] show ?thesis by blast
  qed
  with total show ?thesis by blast
qed

theorem total_is_double_sum_of_details_witness:
  "parseNotation ''2d6+1d20-3 adv'' =
     Inr \<lparr>terms = [Dice \<lparr>count = 2, sides = 6, keep = None, drop_t = None\<rparr>,
                   Dice \<lparr>count = 1, sides = 20, keep = None, drop_t = None\<rparr>, Modifier (- 3)],
          advantage = True, disadvantage = False\<rparr> \<and>
   (\<exists>tot details g'. roll_dice ''2d6+1d20-3 adv'' (tape_of [1/2, 5/6, 1/2, 0, 1/4]) =
       Inr (tot, details, g') \<and> tot = double_sum (map contribution details)) \<and>
   outcome (roll_dice ''2d6+1d20-3 adv'' (tape_of [1/2, 5/6, 1/2, 0, 1/4])) =
     Inr (13, [DiceDetail 6 2 None None [4, 6] [0, 1] 10,
               D20Detail 11 (Some (AdvDetail 1 6)) 6, ModifierDetail (- 3)])"
proof -
  have p: "parseNotation ''2d6+1d20-3 adv'' =
     Inr \<lparr>terms = [Dice \<lparr>count = 2, sides = 6, keep = None, drop_t = None\<rparr>,
                   Dice \<lparr>count = 1, sides = 20, keep = None, drop_t = None\<rparr>, Modifier (- 3)],
          advantage = True, disadvantage = False\<rparr>"
    by code_simp
  have o: "outcome (roll_dice ''2d6+1d20-3 adv'' (tape_of [1/2, 5/6, 1/2, 0, 1/4])) =
     Inr (13, [DiceDetail 6 2 None None [4, 6] [0, 1] 10,
               D20Detail 11 (Some (AdvDetail 1 6)) 6, ModifierDetail (- 3)])"
    by code_simp
  have "\<exists>tot details g'. roll_dice ''2d6+1d20-3 adv'' (tape_of [1/2, 5/6, 1/2, 0, 1/4]) =
       Inr (tot, details, g') \<and> tot = double_sum (map contribution details)"
    using total_is_double_sum_of_details [OF p, of "tape_of [1/2, 5/6, 1/2, 0, 1/4]"] o
    by (auto simp: outcome_def)
  with p o show ?thesis by blast
qed

lemma parse_part_modifier:
  "md \<noteq> [] \<Longrightarrow> list_all is_digit md \<Longrightarrow>
   parse_part (CHR ''+'' # md) = Inr (Modifier (int (parseInt md)))"
  by (simp add: parse_part_def is_sign_def match_body_mod)

lemma parse_big_modifier:
  "parseNotation ''9007199254740991+1+1'' =
     Inr \<lparr>terms = [Modifier 9007199254740991, Modifier 1, Modifier 1],
          advantage = False, disadvantage = False\<rparr>"
proof -
  have r: "runs ''9007199254740991+1+1'' = [''+9007199254740991'', ''+1'', ''+1'']"
    by code_simp
  have f: "adv_seen ''9007199254740991+1+1'' = False" "dis_seen ''9007199254740991+1+1'' = False"
    by code_simp+
  have "double_of_int (decimal ''9007199254740991'') = 9007199254740991" by code_simp
  then have big: "int (parseInt ''9007199254740991'') = 9007199254740991"
    by (simp add: parseInt_def)
  have one: "int (parseInt ''1'') = 1" by code_simp
  have "parse_part ''+9007199254740991'' = Inr (Modifier 9007199254740991)"
    using parse_part_modifier [of "''9007199254740991''"] by (simp add: is_digit_def big)
  moreover have "parse_part ''+1'' = Inr (Modifier 1)"
    using parse_part_modifier [of "''1''"] by (simp add: is_digit_def one)
  ultimately show ?thesis
    by (simp add: parseNotation_runs r f)
qed

text \<open>
  Claim C4 as stated fails above \<open>2 ^ 53\<close>: for \<open>9007199254740991+1+1\<close> the total is
  9007199254740992, the second addition of 1 being lost in the rounding, and the
  contributions recorded sum to 9007199254740993.
\<close>

theorem rounded_total_counterexample:
  "outcome (roll_dice ''9007199254740991+1+1'' (tape_of [])) =
     Inr (9007199254740992,
          [ModifierDetail 9007199254740991, ModifierDetail 1, ModifierDetail 1]) \<and>
   sum_list (map contribution
     [ModifierDetail 9007199254740991, ModifierDetail 1, ModifierDetail 1]) = 9007199254740993"
proof -
  have a1: "double_add 0 9007199254740991 = 9007199254740991" by code_simp
  have a2: "double_add 9007199254740991 1 = 9007199254740992" by code_simp
  have a3: "double_add 9007199254740992 1 = 9007199254740992" by code_simp
  have "roll_dice ''9007199254740991+1+1'' (tape_of []) =
     Inr (9007199254740992,
          [ModifierDetail 9007199254740991, ModifierDetail 1, ModifierDetail 1], tape_of [])"
    by (simp add: roll_dice_def parse_big_modifier resolve_def resolve_term_def a1 a2 a3)
  then show ?thesis by (simp add: outcome_def)
qed

subsection \<open>The errors of \<open>parseNotation\<close>\<close>











text \<open>The runs of the code against the runs of the grammar: the same unless the joined
  text starts with \<open>-\<close>. There the code puts a \<open>+\<close> in front, which becomes a run of its
  own, and \<open>parseNotation\<close> throws on it.\<close>

lemma runs_joined: "runs s = filter (\<lambda>p. p \<noteq> []) (split_signs [] (replace_plus (joined s)))"
  by (simp add: runs_def parts_of_def joined_def)


lemma leading_minus_runs:
  assumes "leading_minus s"
  shows "\<exists>rest. runs s = ''+'' # rest"
proof -
  from assms obtain cs where j: "joined s = CHR ''-'' # cs"
    by (auto simp: leading_minus_def split: list.splits)
  have "split_signs [] (replace_plus (joined s)) = ''+'' # split_signs ''-'' cs"
    by (simp add: j is_sign_def)
  then show ?thesis by (simp add: runs_joined)
qed

lemma leading_minus_rejected:
  assumes "leading_minus s"
  shows "parseNotation s = Inl (InvalidDicePart ''+'')"
proof -
  from leading_minus_runs [OF assms] obtain rest where r: "runs s = ''+'' # rest" by blast
  have "parse_parts (''+'' # rest) [] = Inl (InvalidDicePart ''+'')"
    by (simp add: parse_part_plus)
  then show ?thesis by (simp add: parseNotation_runs r)
qed





subsection \<open>A count of zero\<close>

text \<open>
  Claim C10, amended. A run \<open>+\<close>, zeros, \<open>d\<close>, sides and an optional selector parses, to a
  term with count 1, for which \<open>rollTerm\<close> draws exactly one die. The handler resolves it as
  it resolves any term of count 1: through \<open>rollTerm\<close> with one draw, or, with 20 sides,
  no selector kept and a flag set, through the advantage path with its three draws.
\<close>

theorem zero_count_is_one:
  assumes "zs \<noteq> []" "set zs \<subseteq> {CHR ''0''}" "digits sd"
    "sel = [] \<or> (\<exists>kd ns. sel = kd @ ns \<and> is_kd kd \<and> digits ns)"
  shows "\<exists>t. parse_part (CHR ''+'' # zs @ CHR ''d'' # sd @ sel) = Inr (Dice t) \<and>
     count t = 1 \<and> sides t = parseInt sd \<and>
     (\<exists>r. rollTerm t g = Inr (r, \<lambda>i. g (i + 1)) \<and> length (rolls r) = 1) \<and>
     (\<exists>v d. resolve_term adv dis (Dice t) g =
        Inr (v, d, \<lambda>i. g (i + (if sides t = 20 \<and> keep t = None \<and> drop_t t = None \<and> (adv \<or> dis)
                               then 3 else 1))))"
proof -
  have z: "list_all is_digit zs" "count_of zs = 1"
    using assms(1,2) by (simp_all add: zeros_digits count_of_def parseInt_zeros)
  have sd: "sd \<noteq> []" "list_all is_digit sd" using assms(3) by (simp_all add: digits_def)
  let ?t0 = "\<lparr>count = 1, sides = parseInt sd, keep = None, drop_t = None\<rparr>"
  from assms(4) obtain t where
    t: "parse_part (CHR ''+'' # zs @ CHR ''d'' # sd @ sel) = Inr (Dice t)"
    and c: "count t = 1" and s: "sides t = parseInt sd"
  proof
    assume "sel = []"
    then have "parse_part (CHR ''+'' # zs @ CHR ''d'' # sd @ sel) = Inr (Dice ?t0)"
      using parse_part_dice_plain [OF z(1) sd] z(2) by simp
    then show ?thesis using that [of ?t0] by simp
  next
    assume "\<exists>kd ns. sel = kd @ ns \<and> is_kd kd \<and> digits ns"
    then obtain kd ns where k: "sel = kd @ ns" "is_kd kd" "ns \<noteq> []" "list_all is_digit ns"
      unfolding digits_def by blast
    let ?t1 = "if parseInt ns \<noteq> 0 then kd_of kd (parseInt ns) ?t0 else ?t0"
    have "parse_part (CHR ''+'' # zs @ CHR ''d'' # sd @ sel) = Inr (Dice ?t1)"
      using parse_part_dice_sel [OF z(1) sd k(2-4)] z(2) k(1) by simp
    moreover have "count ?t1 = 1" "sides ?t1 = parseInt sd"
      by (simp_all add: kd_of_fields)
    ultimately show ?thesis using that [of ?t1] by blast
  qed
  have rt: "\<exists>r. rollTerm t g = Inr (r, \<lambda>i. g (i + 1)) \<and> length (rolls r) = 1"
  proof -
    have "count t < 2 ^ 32" unfolding c by simp
    then obtain r g' where r: "rollTerm t g = Inr (r, g')"
      using rollTerm_result [of t g] by blast
    from rollTerm_InrD(4,5) [OF r] have "g' = (\<lambda>i. g (i + 1))" "length (rolls r) = 1"
      unfolding c by simp_all
    with r show ?thesis by blast
  qed
  have rs: "\<exists>v d. resolve_term adv dis (Dice t) g =
        Inr (v, d, \<lambda>i. g (i + (if sides t = 20 \<and> keep t = None \<and> drop_t t = None \<and> (adv \<or> dis)
                               then 3 else 1)))"
  proof (cases "count t = 1 \<and> sides t = 20 \<and> (adv \<or> dis) \<and> keep t = None \<and> drop_t t = None")
    case True
    from resolve_term_special [OF True] True show ?thesis by (simp add: Let_def)
  next
    case False
    from resolve_term_general [OF False] False c show ?thesis by (auto simp: Let_def)
  qed
  from t c s rt rs show ?thesis by blast
qed

theorem zero_count_is_one_witness:
  "parseNotation ''0d6'' =
     Inr \<lparr>terms = [Dice \<lparr>count = 1, sides = 6, keep = None, drop_t = None\<rparr>],
          advantage = False, disadvantage = False\<rparr> \<and>
   (\<exists>t. parse_part ''+0d6'' = Inr (Dice t) \<and> count t = 1 \<and> sides t = 6 \<and>
      (\<exists>r. rollTerm t (tape_of [1/2, 5/6]) = Inr (r, \<lambda>i. tape_of [1/2, 5/6] (i + 1)) \<and>
         length (rolls r) = 1)) \<and>
   outcome (roll_dice ''0d6'' (tape_of [1/2, 5/6])) = Inr (4, [DiceDetail 6 1 None None [4] [0] 4])"
proof -
  have p: "parseNotation ''0d6'' =
     Inr \<lparr>terms = [Dice \<lparr>count = 1, sides = 6, keep = None, drop_t = None\<rparr>],
          advantage = False, disadvantage = False\<rparr>"
    by code_simp
  have o: "outcome (roll_dice ''0d6'' (tape_of [1/2, 5/6])) =
      Inr (4, [DiceDetail 6 1 None None [4] [0] 4])"
    by code_simp
  have a: "''0'' \<noteq> []" "set ''0'' \<subseteq> {CHR ''0''}" "digits ''6''"
    "[] = ([] :: string) \<or> (\<exists>kd ns. [] = kd @ ns \<and> is_kd kd \<and> digits ns)"
    by (simp_all add: digits_def is_digit_def)
  have six: "parseInt ''6'' = 6" by code_simp
  from zero_count_is_one [OF a, of "tape_of [1/2, 5/6]" False False]
  have "\<exists>t. parse_part ''+0d6'' = Inr (Dice t) \<and> count t = 1 \<and> sides t = 6 \<and>
      (\<exists>r. rollTerm t (tape_of [1/2, 5/6]) = Inr (r, \<lambda>i. tape_of [1/2, 5/6] (i + 1)) \<and>
         length (rolls r) = 1)"
    unfolding six by auto
  with p o show ?thesis by blast
qed

text \<open>
  Claim C10 as stated fails under advantage: \<open>0d20 adv\<close> parses to a term of count 1 and
  is resolved with three draws, the base 1 and the pair 6 and 11.
\<close>

theorem zero_count_advantage_counterexample:
  "parseNotation ''0d20 adv'' =
     Inr \<lparr>terms = [Dice \<lparr>count = 1, sides = 20, keep = None, drop_t = None\<rparr>],
          advantage = True, disadvantage = False\<rparr> \<and>
   outcome (roll_dice ''0d20 adv'' (tape_of [0, 1/4, 1/2])) =
     Inr (11, [D20Detail 1 (Some (AdvDetail 6 11)) 11])"
proof -
  have "parseNotation ''0d20 adv'' =
     Inr \<lparr>terms = [Dice \<lparr>count = 1, sides = 20, keep = None, drop_t = None\<rparr>],
          advantage = True, disadvantage = False\<rparr>"
    by code_simp
  moreover have "outcome (roll_dice ''0d20 adv'' (tape_of [0, 1/4, 1/2])) =
     Inr (11, [D20Detail 1 (Some (AdvDetail 6 11)) 11])"
    by code_simp
  ultimately show ?thesis by simp
qed

end
